theory Spec2Isabelle
  imports Main "HOL-Library.Word" "HOL-Library.Multiset"
begin

section \<open>State sync client (statesync/client.go)\<close>

text \<open>
  A shallow embedding of the request dispatch, retry and response validation code of
  \<^verbatim>\<open>statesync/client.go\<close>. Collaborators that live outside that file (the codec,
  the peer transport, RLP, Keccak, the trie's range proof verifier, math/rand) are
  function parameters or record fields of function type; nothing is assumed about
  them except where a theorem says so.
\<close>

subsection \<open>Data model\<close>

type_synonym byte = "8 word"
type_synonym bytes = "byte list"

text \<open>\<^verbatim>\<open>common.Hash\<close> is a 32 byte array, \<^verbatim>\<open>ids.ShortID\<close> a 20 byte array.\<close>

type_synonym Hash = "256 word"
type_synonym ShortID = "160 word"

text \<open>
  The request and response structs are declared in package \<^verbatim>\<open>message\<close>, outside the
  file; their fields are those the file reads and section 3 of the spec lists.
  In \<^verbatim>\<open>message.LeafsRequest\<close>, \<open>Start\<close> is tested against \<^verbatim>\<open>nil\<close> (line 150), so it is
  an option: \<open>None\<close> is the nil slice. Elsewhere the file only takes the length of a
  slice or hands it on, and a nil slice is the empty list. \<open>Limit\<close> and \<open>Parents\<close> are
  \<^verbatim>\<open>uint16\<close>.
\<close>

record LeafsRequest =
  Root :: Hash
  Start :: "bytes option"
  End :: bytes
  Limit :: "16 word"

record BlockRequest =
  BlockRequest_Hash :: Hash
  Height :: "64 word"
  Parents :: "16 word"

record CodeRequest =
  CodeRequest_Hash :: Hash

text \<open>\<^verbatim>\<open>message.Request\<close>: the interface with its three implementations.\<close>

datatype Request =
    LeafsReq LeafsRequest
  | BlockReq BlockRequest
  | CodeReq CodeRequest

record LeafsResponse =
  Keys :: "bytes list"
  Vals :: "bytes list"
  More :: bool
  ProofKeys :: "bytes list"
  ProofVals :: "bytes list"

record BlockResponse =
  Blocks :: "bytes list"

record CodeResponse =
  Data :: bytes

text \<open>
  The \<^verbatim>\<open>interface{}\<close> a \<^verbatim>\<open>parseResponseFn\<close> returns: a \<^verbatim>\<open>message.LeafsResponse\<close>,
  a \<^verbatim>\<open>types.Blocks\<close> or a \<^verbatim>\<open>message.CodeResponse\<close>. The block type is a parameter.
\<close>

datatype 'blk parsed =
    LeafsResult LeafsResponse
  | BlocksResult "'blk list"
  | CodeResult CodeResponse

text \<open>
  Go error values. \<open>External\<close> is an error made by a collaborator. The other
  constructors are the errors of lines 36 to 42 and the \<^verbatim>\<open>fmt.Errorf\<close> calls of the
  file, each with the values it formats or wraps.
\<close>

datatype error =
    External string
  | errEmptyResponse
  | errTooManyBlocks
  | errHashMismatch Hash Hash
  | errInvalidRangeProof error
  | errExceededRetryLimit "8 word" "error option"
  | errTooManyLeaves nat "16 word"
  | errUnmarshalResponse error
  | errEmptyKeyResponse
  | errProofMismatch nat nat
  | errCouldNotGetBlocks Hash error
  | errCouldNotGetCode Hash error
  | errUnexpectedType

text \<open>
  What a call of this file does: it returns a value, returns an error, or panics
  (a failed type assertion, \<^verbatim>\<open>rand.Int63n\<close> on an argument that is not positive).
\<close>

datatype 'a result =
    Ok 'a
  | Err error
  | Panic string

subsection \<open>Collaborators and client state\<close>

text \<open>
  Everything the client does to the outside world is appended to a trace: the encoding
  of the request (line 268), a sleep (line 281), a send to any peer (line 289) or to a
  chosen peer (line 296), and the two log calls for a failed attempt (lines 300 and
  305), which carry the peer, the attempt number and the error. The transport and the
  random source are oracles over the trace so far (their first argument), so the
  answer to a call may depend on everything that happened before it.
\<close>

type_synonym version = "string \<times> nat \<times> nat \<times> nat"

datatype event =
    EvEncode Request
  | EvSleep int
  | EvRequestAny version bytes
  | EvRequest ShortID bytes
  | EvLogRequestFailed ShortID "8 word" error
  | EvLogInvalidResponse ShortID "8 word" error

type_synonym trace = "event list"

text \<open>
  \<^verbatim>\<open>peer.Client\<close>: \<^verbatim>\<open>RequestAny\<close> returns the response and the peer the transport
  chose, \<^verbatim>\<open>Request\<close> sends to the given peer.
\<close>

record peer_Client =
  RequestAny :: "trace \<Rightarrow> version \<Rightarrow> bytes \<Rightarrow> (error + bytes) \<times> ShortID"
  Request :: "trace \<Rightarrow> ShortID \<Rightarrow> bytes \<Rightarrow> error + bytes"

text \<open>
  \<^verbatim>\<open>codec.Manager\<close>: \<^verbatim>\<open>Unmarshal\<close> at the three destination types the file uses, and
  \<^verbatim>\<open>Marshal\<close> of a request.
\<close>

record codec_Manager =
  UnmarshalLeafs :: "bytes \<Rightarrow> error + LeafsResponse"
  UnmarshalBlocks :: "bytes \<Rightarrow> error + BlockResponse"
  UnmarshalCode :: "bytes \<Rightarrow> error + CodeResponse"
  Marshal :: "Request \<Rightarrow> error + bytes"

text \<open>
  The \<^verbatim>\<open>client\<close> struct. \<open>nodeIdx\<close> is a Go \<^verbatim>\<open>int\<close> that \<^verbatim>\<open>NewClient\<close> leaves at 0 and
  line 293 keeps in \<open>[0, len(stateSyncNodes))\<close>: it is never negative and never near
  the end of the \<^verbatim>\<open>int\<close> range, so it is a \<open>nat\<close>.
\<close>

record client =
  networkClient :: peer_Client
  codec :: codec_Manager
  maxAttempts :: "8 word"
  maxRetryDelay :: "64 word"
  stateSyncNodes :: "ShortID list"
  nodeIdx :: nat

definition StateSyncVersion :: version where
  "StateSyncVersion = (''avalanche'', 1, 7, 7)"

definition NewClient ::
  "peer_Client \<Rightarrow> 8 word \<Rightarrow> 64 word \<Rightarrow> codec_Manager \<Rightarrow> ShortID list \<Rightarrow> client" where
  "NewClient networkClient' maxAttempts' maxRetryDelay' codec' stateSyncNodes' =
     \<lparr>networkClient = networkClient', codec = codec', maxAttempts = maxAttempts',
      maxRetryDelay = maxRetryDelay', stateSyncNodes = stateSyncNodes', nodeIdx = 0\<rparr>"

text \<open>
  Modelled from the spec: \<^verbatim>\<open>message.RequestToBytes\<close> is not in the file; section 6
  of the spec gives it as the codec's \<^verbatim>\<open>encode(request)\<close> capability.
\<close>

definition RequestToBytes :: "codec_Manager \<Rightarrow> Request \<Rightarrow> error + bytes" where
  "RequestToBytes cdc request = Marshal cdc request"

text \<open>
  Modelled from the spec: the transient key-value store of section 4.3 step 4
  (\<^verbatim>\<open>memorydb\<close> is not in the file). The spec gives storing a pair no way to fail,
  so the error return of line 141 has no branch here. Closing the store (line 138)
  changes no result.
\<close>

type_synonym memorydb = "bytes \<rightharpoonup> bytes"

definition Put :: "bytes \<times> bytes \<Rightarrow> memorydb \<Rightarrow> memorydb" where
  "Put kv db = db(fst kv \<mapsto> snd kv)"

text \<open>The signature of \<^verbatim>\<open>trie.VerifyRangeProof\<close>; the proof store may be nil.\<close>

type_synonym verifier =
  "Hash \<Rightarrow> bytes \<Rightarrow> bytes \<Rightarrow> bytes list \<Rightarrow> bytes list \<Rightarrow> memorydb option \<Rightarrow> error + bool"

subsection \<open>parseLeafsResponse (lines 112 to 171)\<close>

text \<open>Lines 130 to 144: the proof store, nil when no proof keys were sent.\<close>

definition leafs_proof :: "LeafsResponse \<Rightarrow> memorydb option result" where
  "leafs_proof leafsResponse =
     (if length (ProofKeys leafsResponse) > 0 then
        if length (ProofKeys leafsResponse) \<noteq> length (ProofVals leafsResponse) then
          Err (errProofMismatch (length (ProofKeys leafsResponse))
                 (length (ProofVals leafsResponse)))
        else
          Ok (Some (fold Put (zip (ProofKeys leafsResponse) (ProofVals leafsResponse))
                      Map.empty))
      else Ok None)"

text \<open>Lines 146 to 156: the bounds handed to the verifier.\<close>

definition leafs_firstKey :: "LeafsRequest \<Rightarrow> bytes" where
  "leafs_firstKey leafsRequest =
     (case Start leafsRequest of
        None \<Rightarrow> replicate (length (End leafsRequest)) 0
      | Some firstKey \<Rightarrow> firstKey)"

definition leafs_lastKey :: "LeafsRequest \<Rightarrow> LeafsResponse \<Rightarrow> bytes" where
  "leafs_lastKey leafsRequest leafsResponse =
     (if length (Keys leafsResponse) > 0
      then Keys leafsResponse ! (length (Keys leafsResponse) - 1)
      else End leafsRequest)"

definition parseLeafsResponse ::
  "client \<Rightarrow> verifier \<Rightarrow> Request \<Rightarrow> bytes \<Rightarrow> 'blk parsed result" where
  "parseLeafsResponse c VerifyRangeProof reqIntf data =
     (case UnmarshalLeafs (codec c) data of
        Inl err \<Rightarrow> Err err
      | Inr leafsResponse \<Rightarrow>
          (case reqIntf of
             LeafsReq leafsRequest \<Rightarrow>
               if length (Keys leafsResponse) > unat (Limit leafsRequest)
                  \<or> length (Vals leafsResponse) > unat (Limit leafsRequest) then
                 Err (errTooManyLeaves (length (Keys leafsResponse)) (Limit leafsRequest))
               else if length (Keys leafsResponse) = 0
                       \<and> length (ProofKeys leafsResponse) = 0 then
                 Err errEmptyKeyResponse
               else
                 (case leafs_proof leafsResponse of
                    Err err \<Rightarrow> Err err
                  | Panic p \<Rightarrow> Panic p
                  | Ok proof \<Rightarrow>
                      (case VerifyRangeProof (Root leafsRequest) (leafs_firstKey leafsRequest)
                              (leafs_lastKey leafsRequest leafsResponse)
                              (Keys leafsResponse) (Vals leafsResponse) proof of
                         Inl err \<Rightarrow> Err (errInvalidRangeProof err)
                       | Inr more' \<Rightarrow> Ok (LeafsResult (leafsResponse\<lparr>More := more'\<rparr>))))
           | _ \<Rightarrow> Panic ''interface conversion: message.Request is not message.LeafsRequest''))"

subsection \<open>parseBlocks (lines 192 to 226)\<close>

text \<open>
  The loop of lines 210 to 222: \<open>hash\<close> is the expected hash, replaced by the parent
  hash of each block that passes.
\<close>

fun parseBlocks_loop ::
  "(bytes \<Rightarrow> error + 'blk) \<Rightarrow> ('blk \<Rightarrow> Hash) \<Rightarrow> ('blk \<Rightarrow> Hash) \<Rightarrow> Hash \<Rightarrow> bytes list
     \<Rightarrow> 'blk list result" where
  "parseBlocks_loop DecodeBytes Block_Hash Block_ParentHash hash [] = Ok []"
| "parseBlocks_loop DecodeBytes Block_Hash Block_ParentHash hash (blkBytes # rest) =
     (case DecodeBytes blkBytes of
        Inl err \<Rightarrow> Err (errUnmarshalResponse err)
      | Inr block \<Rightarrow>
          if Block_Hash block \<noteq> hash then Err (errHashMismatch (Block_Hash block) hash)
          else
            (case parseBlocks_loop DecodeBytes Block_Hash Block_ParentHash
                    (Block_ParentHash block) rest of
               Ok blocks \<Rightarrow> Ok (block # blocks)
             | Err err \<Rightarrow> Err err
             | Panic p \<Rightarrow> Panic p))"

definition parseBlocks ::
  "client \<Rightarrow> (bytes \<Rightarrow> error + 'blk) \<Rightarrow> ('blk \<Rightarrow> Hash) \<Rightarrow> ('blk \<Rightarrow> Hash) \<Rightarrow> Request \<Rightarrow> bytes
     \<Rightarrow> 'blk parsed result" where
  "parseBlocks c DecodeBytes Block_Hash Block_ParentHash req data =
     (case UnmarshalBlocks (codec c) data of
        Inl err \<Rightarrow> Err (errUnmarshalResponse err)
      | Inr response \<Rightarrow>
          if length (Blocks response) = 0 then Err errEmptyResponse
          else
            (case req of
               BlockReq blockRequest \<Rightarrow>
                 if length (Blocks response) > unat (Parents blockRequest) then
                   Err errTooManyBlocks
                 else
                   (case parseBlocks_loop DecodeBytes Block_Hash Block_ParentHash
                           (BlockRequest_Hash blockRequest) (Blocks response) of
                      Ok blocks \<Rightarrow> Ok (BlocksResult blocks)
                    | Err err \<Rightarrow> Err err
                    | Panic p \<Rightarrow> Panic p)
             | _ \<Rightarrow> Panic ''interface conversion: message.Request is not message.BlockRequest''))"

subsection \<open>parseCode (lines 243 to 259)\<close>

definition parseCode ::
  "client \<Rightarrow> (bytes \<Rightarrow> Hash) \<Rightarrow> Request \<Rightarrow> bytes \<Rightarrow> 'blk parsed result" where
  "parseCode c Keccak256Hash req data =
     (case UnmarshalCode (codec c) data of
        Inl err \<Rightarrow> Err err
      | Inr response \<Rightarrow>
          if length (Data response) = 0 then Err errEmptyResponse
          else
            (case req of
               CodeReq codeRequest \<Rightarrow>
                 if Keccak256Hash (Data response) \<noteq> CodeRequest_Hash codeRequest then
                   Err (errHashMismatch (Keccak256Hash (Data response))
                          (CodeRequest_Hash codeRequest))
                 else Ok (CodeResult response)
             | _ \<Rightarrow> Panic ''interface conversion: message.Request is not message.CodeRequest''))"

subsection \<open>get (lines 266 to 314)\<close>

text \<open>
  \<^verbatim>\<open>rand.Int63n(n)\<close> of math/rand: a value in \<open>[0, n)\<close>, and a panic when \<open>n \<le> 0\<close>.
  \<open>Int63\<close> is the raw draw of the random source at this point of the run.
\<close>

definition Int63n :: "(trace \<Rightarrow> int) \<Rightarrow> trace \<Rightarrow> int \<Rightarrow> int result" where
  "Int63n Int63 w n =
     (if n \<le> 0 then Panic ''invalid argument to Int63n'' else Ok (Int63 w mod n))"

text \<open>
  Lines 279 to 282: the sleep before a retry. \<^verbatim>\<open>maxRetryDelay.Nanoseconds()\<close> is the
  duration as an \<^verbatim>\<open>int64\<close>.
\<close>

definition backoff :: "(trace \<Rightarrow> int) \<Rightarrow> 64 word \<Rightarrow> 8 word \<Rightarrow> trace \<Rightarrow> trace result" where
  "backoff Int63 maxRetryDelay' attempt w =
     (if attempt > 0 then
        (case Int63n Int63 w (sint maxRetryDelay') of
           Ok randTime \<Rightarrow> Ok (w @ [EvSleep randTime])
         | Err err \<Rightarrow> Err err
         | Panic p \<Rightarrow> Panic p)
      else Ok w)"

text \<open>
  Lines 284 to 297: peer selection and the send. With a fixed peer list the cursor
  moves before the peer is read.
\<close>

definition send :: "client \<Rightarrow> bytes \<Rightarrow> trace \<Rightarrow> ((error + bytes) \<times> ShortID) \<times> client \<times> trace" where
  "send c requestBytes w =
     (if length (stateSyncNodes c) = 0 then
        (RequestAny (networkClient c) w StateSyncVersion requestBytes, c,
         w @ [EvRequestAny StateSyncVersion requestBytes])
      else
        (let c' = c\<lparr>nodeIdx := (nodeIdx c + 1) mod length (stateSyncNodes c)\<rparr>;
             nodeID = stateSyncNodes c' ! nodeIdx c'
         in ((Request (networkClient c') w nodeID requestBytes, nodeID), c',
             w @ [EvRequest nodeID requestBytes])))"

text \<open>
  One pass through the loop body (lines 276 to 309): \<open>Retry\<close> is a \<^verbatim>\<open>continue\<close> with
  the error assigned to \<^verbatim>\<open>err\<close>, \<open>Stop\<close> leaves the loop (a return or a panic).
\<close>

datatype 'a step =
    Retry error
  | Stop "'a result"

definition attempt_once ::
  "(trace \<Rightarrow> int) \<Rightarrow> (Request \<Rightarrow> bytes \<Rightarrow> 'a result) \<Rightarrow> Request \<Rightarrow> bytes \<Rightarrow> 64 word \<Rightarrow> 8 word
     \<Rightarrow> client \<Rightarrow> trace \<Rightarrow> 'a step \<times> client \<times> trace" where
  "attempt_once Int63 parseFn request requestBytes maxRetryDelay' attempt c w =
     (case backoff Int63 maxRetryDelay' attempt w of
        Panic p \<Rightarrow> (Stop (Panic p), c, w)
      | Err err \<Rightarrow> (Stop (Err err), c, w)
      | Ok w1 \<Rightarrow>
          (case send c requestBytes w1 of
             ((Inl err, nodeID), c1, w2) \<Rightarrow>
               (Retry err, c1, w2 @ [EvLogRequestFailed nodeID attempt err])
           | ((Inr response, nodeID), c1, w2) \<Rightarrow>
               (case parseFn request response of
                  Err err \<Rightarrow> (Retry err, c1, w2 @ [EvLogInvalidResponse nodeID attempt err])
                | Ok responseIntf \<Rightarrow> (Stop (Ok responseIntf), c1, w2)
                | Panic p \<Rightarrow> (Stop (Panic p), c1, w2))))"

text \<open>The loop of line 275, from \<open>attempt\<close> on, with the last error in \<open>err\<close>.\<close>

function get_loop ::
  "(trace \<Rightarrow> int) \<Rightarrow> (Request \<Rightarrow> bytes \<Rightarrow> 'a result) \<Rightarrow> Request \<Rightarrow> bytes \<Rightarrow> 8 word \<Rightarrow> 64 word
     \<Rightarrow> 8 word \<Rightarrow> error option \<Rightarrow> client \<Rightarrow> trace \<Rightarrow> 'a result \<times> client \<times> trace" where
  "get_loop Int63 parseFn request requestBytes attempts maxRetryDelay' attempt err c w =
     (if attempt < attempts then
        (case attempt_once Int63 parseFn request requestBytes maxRetryDelay' attempt c w of
           (Retry err', c1, w1) \<Rightarrow>
             get_loop Int63 parseFn request requestBytes attempts maxRetryDelay'
               (attempt + 1) (Some err') c1 w1
         | (Stop r, c1, w1) \<Rightarrow> (r, c1, w1))
      else (Err (errExceededRetryLimit attempts err), c, w))"
  by pat_completeness auto
termination
proof (relation "measure (\<lambda>(Int63, parseFn, request, requestBytes, attempts, maxRetryDelay',
        attempt, err, c, w). unat attempts - unat attempt)", goal_cases)
  case 1
  show ?case by simp
next
  case (2 Int63 parseFn request requestBytes attempts maxRetryDelay' attempt err c w)
  have "unat attempts < 2 ^ 8"
    using unsigned_less [of attempts, where ?'a = nat] by simp
  moreover from 2 have less: "unat attempt < unat attempts"
    by (simp add: word_less_nat_alt)
  ultimately have "unat (attempt + 1) = Suc (unat attempt)"
    by (simp add: unat_word_ariths)
  with less show ?case by simp
qed

definition get ::
  "(trace \<Rightarrow> int) \<Rightarrow> client \<Rightarrow> trace \<Rightarrow> Request \<Rightarrow> 8 word \<Rightarrow> 64 word
     \<Rightarrow> (Request \<Rightarrow> bytes \<Rightarrow> 'a result) \<Rightarrow> 'a result \<times> client \<times> trace" where
  "get Int63 c w request attempts maxRetryDelay' parseFn =
     (case RequestToBytes (codec c) request of
        Inl err \<Rightarrow> (Err err, c, w @ [EvEncode request])
      | Inr requestBytes \<Rightarrow>
          get_loop Int63 parseFn request requestBytes attempts maxRetryDelay' 0 None c
            (w @ [EvEncode request]))"

subsection \<open>The three entry points\<close>

definition GetLeafs ::
  "(trace \<Rightarrow> int) \<Rightarrow> verifier \<Rightarrow> client \<Rightarrow> trace \<Rightarrow> LeafsRequest
     \<Rightarrow> LeafsResponse result \<times> client \<times> trace" where
  "GetLeafs Int63 VerifyRangeProof c w req =
     (case get Int63 c w (LeafsReq req) (maxAttempts c) (maxRetryDelay c)
             (parseLeafsResponse c VerifyRangeProof :: Request \<Rightarrow> bytes \<Rightarrow> unit parsed result) of
        (Err err, c', w') \<Rightarrow> (Err err, c', w')
      | (Panic p, c', w') \<Rightarrow> (Panic p, c', w')
      | (Ok (LeafsResult response), c', w') \<Rightarrow> (Ok response, c', w')
      | (Ok _, c', w') \<Rightarrow> (Err errUnexpectedType, c', w'))"

definition GetBlocks ::
  "(trace \<Rightarrow> int) \<Rightarrow> (bytes \<Rightarrow> error + 'blk) \<Rightarrow> ('blk \<Rightarrow> Hash) \<Rightarrow> ('blk \<Rightarrow> Hash) \<Rightarrow> client \<Rightarrow> trace
     \<Rightarrow> Hash \<Rightarrow> 64 word \<Rightarrow> 16 word \<Rightarrow> 'blk list result \<times> client \<times> trace" where
  "GetBlocks Int63 DecodeBytes Block_Hash Block_ParentHash c w hash height parents =
     (let req = BlockReq \<lparr>BlockRequest_Hash = hash, Height = height, Parents = parents\<rparr> in
      case get Int63 c w req (maxAttempts c) (maxRetryDelay c)
             (parseBlocks c DecodeBytes Block_Hash Block_ParentHash) of
        (Err err, c', w') \<Rightarrow> (Err (errCouldNotGetBlocks hash err), c', w')
      | (Panic p, c', w') \<Rightarrow> (Panic p, c', w')
      | (Ok (BlocksResult blocks), c', w') \<Rightarrow> (Ok blocks, c', w')
      | (Ok _, c', w') \<Rightarrow> (Panic ''interface conversion: interface {} is not types.Blocks'', c', w'))"


subsection \<open>Specification side and collaborators for concrete runs\<close>

text \<open>
  Section 4.4 step 3 of the spec, in its words: walk the sequence with an expected hash;
  each block's own hash is the expected one, and the expected hash moves on to that
  block's parent hash.
\<close>

fun hash_chain :: "('blk \<Rightarrow> Hash) \<Rightarrow> ('blk \<Rightarrow> Hash) \<Rightarrow> Hash \<Rightarrow> 'blk list \<Rightarrow> bool" where
  "hash_chain Block_Hash Block_ParentHash expectedHash [] = True"
| "hash_chain Block_Hash Block_ParentHash expectedHash (block # blocks) =
     (Block_Hash block = expectedHash
      \<and> hash_chain Block_Hash Block_ParentHash (Block_ParentHash block) blocks)"

text \<open>Collaborators for the concrete runs below.\<close>

definition stub_codec :: "LeafsResponse \<Rightarrow> BlockResponse \<Rightarrow> CodeResponse \<Rightarrow> codec_Manager" where
  "stub_codec lr br cr =
     \<lparr>UnmarshalLeafs = (\<lambda>data. Inr lr), UnmarshalBlocks = (\<lambda>data. Inr br),
      UnmarshalCode = (\<lambda>data. Inr cr), Marshal = (\<lambda>request. Inr [7])\<rparr>"

definition failing_net :: peer_Client where
  "failing_net =
     \<lparr>RequestAny = (\<lambda>w v b. (Inl (External ''timeout''), 0)),
      Request = (\<lambda>w n b. Inl (External ''timeout''))\<rparr>"


definition stub_client :: "peer_Client \<Rightarrow> codec_Manager \<Rightarrow> client" where
  "stub_client net cdc = NewClient net 3 1000 cdc []"

definition pair_block :: "bytes \<Rightarrow> error + (Hash \<times> Hash)" where
  "pair_block blkBytes =
     (case blkBytes of
        [h, p] \<Rightarrow> Inr (ucast h, ucast p)
      | _ \<Rightarrow> Inl (External ''rlp: bad block''))"

definition length_checking_verifier :: verifier where
  "length_checking_verifier root firstKey lastKey keys vals store =
     (if length keys \<noteq> length vals then Inl (External ''inconsistent proof data'')
      else Inr (store \<noteq> None))"



definition no_leafs :: LeafsResponse where
  "no_leafs = \<lparr>Keys = [], Vals = [], More = False, ProofKeys = [], ProofVals = []\<rparr>"

definition one_leaf :: LeafsResponse where
  "one_leaf = \<lparr>Keys = [[1]], Vals = [[2]], More = False, ProofKeys = [], ProofVals = []\<rparr>"

definition stray_proof_vals :: LeafsResponse where
  "stray_proof_vals =
     \<lparr>Keys = [[1]], Vals = [[2]], More = False, ProofKeys = [], ProofVals = [[3]]\<rparr>"

definition leafs_request :: LeafsRequest where
  "leafs_request = \<lparr>Root = 5, Start = None, End = [255], Limit = 10\<rparr>"

definition proof_only :: LeafsResponse where
  "proof_only = \<lparr>Keys = [], Vals = [], More = False, ProofKeys = [[1]], ProofVals = [[2]]\<rparr>"

definition unpaired_proof :: LeafsResponse where
  "unpaired_proof = \<lparr>Keys = [[1]], Vals = [[2]], More = False, ProofKeys = [[1]], ProofVals = []\<rparr>"

definition bounds_verifier :: verifier where
  "bounds_verifier root firstKey lastKey keys vals store =
     (if firstKey = [0] \<and> lastKey = [1] then Inr True else Inl (External ''wrong bounds''))"

definition code_request :: Request where
  "code_request = CodeReq \<lparr>CodeRequest_Hash = 3\<rparr>"

definition sum_hash :: "bytes \<Rightarrow> Hash" where
  "sum_hash data = of_nat (sum_list (map unat data))"

definition failing_client :: "8 word \<Rightarrow> 64 word \<Rightarrow> ShortID list \<Rightarrow> client" where
  "failing_client n d nodes =
     NewClient failing_net n d (stub_codec no_leafs \<lparr>Blocks = []\<rparr> \<lparr>Data = []\<rparr>) nodes"

definition broken_codec :: codec_Manager where
  "broken_codec =
     \<lparr>UnmarshalLeafs = (\<lambda>data. Inl (External ''unmarshal'')),
      UnmarshalBlocks = (\<lambda>data. Inl (External ''unmarshal'')),
      UnmarshalCode = (\<lambda>data. Inl (External ''unmarshal'')),
      Marshal = (\<lambda>request. Inl (External ''marshal''))\<rparr>"


subsection \<open>Reading a trace\<close>

text \<open>The payload of every send, in order.\<close>

fun payloads :: "trace \<Rightarrow> bytes list" where
  "payloads [] = []"
| "payloads (EvRequestAny v b # w) = b # payloads w"
| "payloads (EvRequest n b # w) = b # payloads w"
| "payloads (_ # w) = payloads w"

text \<open>The peer of every send to a chosen peer, in order.\<close>

fun peers :: "trace \<Rightarrow> ShortID list" where
  "peers [] = []"
| "peers (EvRequest n b # w) = n # peers w"
| "peers (_ # w) = peers w"

text \<open>The error of every failed attempt, in order, as the two log calls report it.\<close>

fun failures :: "trace \<Rightarrow> error list" where
  "failures [] = []"
| "failures (EvLogRequestFailed n a err # w) = err # failures w"
| "failures (EvLogInvalidResponse n a err # w) = err # failures w"
| "failures (_ # w) = failures w"

fun encodes :: "trace \<Rightarrow> Request list" where
  "encodes [] = []"
| "encodes (EvEncode request # w) = request # encodes w"
| "encodes (_ # w) = encodes w"

text \<open>Sleeps and sends in order: \<open>Some t\<close> is a sleep of \<open>t\<close> nanoseconds, \<open>None\<close> a send.\<close>

fun timeline :: "trace \<Rightarrow> int option list" where
  "timeline [] = []"
| "timeline (EvSleep t # w) = Some t # timeline w"
| "timeline (EvRequestAny v b # w) = None # timeline w"
| "timeline (EvRequest n b # w) = None # timeline w"
| "timeline (_ # w) = timeline w"

text \<open>The error the last failed attempt left in \<^verbatim>\<open>err\<close>; nil when no attempt was made.\<close>

definition last_error :: "trace \<Rightarrow> error option" where
  "last_error evs = (if failures evs = [] then None else Some (last (failures evs)))"

text \<open>
  A send, then a sleep within \<open>[0, maxDelay)\<close> and a send, any number of times: no
  sleep before the first send, one sleep before every later one, none after the last.
\<close>

fun backoff_pattern :: "int \<Rightarrow> int option list \<Rightarrow> bool" where
  "backoff_pattern maxDelay [] = True"
| "backoff_pattern maxDelay [None] = True"
| "backoff_pattern maxDelay (None # Some t # rest) =
     (0 \<le> t \<and> t < maxDelay \<and> rest \<noteq> [] \<and> backoff_pattern maxDelay rest)"
| "backoff_pattern maxDelay (_ # _) = False"

text \<open>The transport can answer the request bytes \<open>b\<close> with \<open>response\<close>.\<close>

definition answers :: "peer_Client \<Rightarrow> bytes \<Rightarrow> bytes \<Rightarrow> bool" where
  "answers net b response \<longleftrightarrow>
     (\<exists>w. fst (RequestAny net w StateSyncVersion b) = Inr response
          \<or> (\<exists>nodeID. Request net w nodeID b = Inr response))"

text \<open>
  At the point \<open>h\<close> of a run the attempt fails, whichever peer is asked: the transport
  returns an error, or a response the validator returns an error for.
\<close>

definition rejected_at ::
  "peer_Client \<Rightarrow> (Request \<Rightarrow> bytes \<Rightarrow> 'a result) \<Rightarrow> Request \<Rightarrow> bytes \<Rightarrow> trace \<Rightarrow> bool" where
  "rejected_at net parseFn request b h \<longleftrightarrow>
     (\<forall>res. res = fst (RequestAny net h StateSyncVersion b) \<or> (\<exists>nodeID. res = Request net h nodeID b)
        \<longrightarrow> (case res of
               Inl err \<Rightarrow> True
             | Inr response \<Rightarrow> (\<exists>err. parseFn request response = Err err)))"


text \<open>
  Every sleep of \<open>evs\<close>, which follow \<open>h\<close>, is what \<^verbatim>\<open>rand.Int63n(n)\<close> returns at that
  point of the run.
\<close>

fun sleeps_drawn :: "(trace \<Rightarrow> int) \<Rightarrow> int \<Rightarrow> trace \<Rightarrow> trace \<Rightarrow> bool" where
  "sleeps_drawn Int63 n h [] = True"
| "sleeps_drawn Int63 n h (EvSleep t # evs) =
     (Int63n Int63 h n = Ok t \<and> sleeps_drawn Int63 n (h @ [EvSleep t]) evs)"
| "sleeps_drawn Int63 n h (ev # evs) = sleeps_drawn Int63 n (h @ [ev]) evs"




section \<open>The validators\<close>

subsection \<open>Blocks\<close>

lemma parseBlocks_loop_Ok_iff:
  "parseBlocks_loop D H P hash raws = Ok blocks
     \<longleftrightarrow> map D raws = map Inr blocks \<and> hash_chain H P hash blocks"
proof (induction raws arbitrary: hash blocks)
  case Nil
  then show ?case by auto
next
  case (Cons blkBytes rest)
  show ?case
  proof (cases "D blkBytes")
    case (Inl err)
    then show ?thesis by (cases blocks) auto
  next
    case (Inr block)
    show ?thesis
    proof (cases "H block = hash")
      case False
      with Inr show ?thesis by (cases blocks) auto
    next
      case True
      with Inr Cons.IH [of "P block"] show ?thesis
        by (cases blocks) (auto split: result.splits)
    qed
  qed
qed

text \<open>
  C3. A decoded block response is accepted exactly when its block sequence is not
  empty, is no longer than the request's Parents, and every entry decodes to a block
  whose hash is the expected one, the expected hash starting at the request's Hash and
  moving to each block's parent hash. The accepted value is the list of decoded blocks
  in the order received.
\<close>

theorem parseBlocks_accepts_iff:
  assumes "UnmarshalBlocks (codec c) data = Inr response"
  shows "parseBlocks c D H P (BlockReq req) data = Ok v
           \<longleftrightarrow> Blocks response \<noteq> []
               \<and> length (Blocks response) \<le> unat (Parents req)
               \<and> (\<exists>blocks. v = BlocksResult blocks
                     \<and> map D (Blocks response) = map Inr blocks
                     \<and> hash_chain H P (BlockRequest_Hash req) blocks)"
  using assms
  by (auto simp: parseBlocks_def parseBlocks_loop_Ok_iff [symmetric] split: result.splits)

theorem parseBlocks_accepts_iff_witness:
  "parseBlocks
       (stub_client failing_net (stub_codec no_leafs \<lparr>Blocks = [[1, 2], [2, 3]]\<rparr> \<lparr>Data = []\<rparr>))
       pair_block fst snd
       (BlockReq \<lparr>BlockRequest_Hash = 1, Height = 100, Parents = 3\<rparr>) []
     = Ok (BlocksResult [(1, 2), (2, 3)])"
  using parseBlocks_accepts_iff [of
      "stub_client failing_net (stub_codec no_leafs \<lparr>Blocks = [[1, 2], [2, 3]]\<rparr> \<lparr>Data = []\<rparr>)"
      "[]" "\<lparr>Blocks = [[1, 2], [2, 3]]\<rparr>" pair_block fst snd
      "\<lparr>BlockRequest_Hash = 1, Height = 100, Parents = 3\<rparr>" "BlocksResult [(1, 2), (2, 3)]"]
  by (simp add: stub_client_def NewClient_def stub_codec_def pair_block_def)

subsection \<open>Leafs\<close>

lemma parseLeafsResponse_Ok_D:
  assumes "UnmarshalLeafs (codec c) data = Inr resp"
    and "parseLeafsResponse c V (LeafsReq req) data = Ok v"
  shows "length (Keys resp) \<le> unat (Limit req) \<and> length (Vals resp) \<le> unat (Limit req)
         \<and> \<not> (Keys resp = [] \<and> ProofKeys resp = [])
         \<and> (\<exists>store more'. leafs_proof resp = Ok store
               \<and> V (Root req) (leafs_firstKey req) (leafs_lastKey req resp) (Keys resp)
                    (Vals resp) store = Inr more'
               \<and> v = LeafsResult (resp\<lparr>More := more'\<rparr>))"
  using assms
  by (auto simp: parseLeafsResponse_def split: if_splits result.splits sum.splits)




text \<open>
  C5, as the claim states it, fails: proof values that come without any proof key are
  not looked at (line 133 guards the comparison), so a response with no proof keys and
  one proof value is accepted.
\<close>

theorem proof_pairing_counterexample:
  "parseLeafsResponse
       (stub_client failing_net (stub_codec stray_proof_vals \<lparr>Blocks = []\<rparr> \<lparr>Data = []\<rparr>))
       length_checking_verifier (LeafsReq leafs_request) []
     = (Ok (LeafsResult stray_proof_vals) :: unit parsed result)
   \<and> length (ProofKeys stray_proof_vals) \<noteq> length (ProofVals stray_proof_vals)"
  by (simp add: stub_client_def NewClient_def stub_codec_def stray_proof_vals_def
      leafs_request_def parseLeafsResponse_def leafs_proof_def leafs_firstKey_def
      leafs_lastKey_def length_checking_verifier_def)

text \<open>
  C5, amended. A decoded leafs response that has proof keys, and not as many proof
  values as proof keys, is rejected with an error; every accepted response that has
  proof keys has as many proof values as proof keys.
\<close>

theorem parseLeafsResponse_proof_pairing:
  assumes "UnmarshalLeafs (codec c) data = Inr resp"
  shows "(ProofKeys resp \<noteq> [] \<longrightarrow> length (ProofKeys resp) \<noteq> length (ProofVals resp)
            \<longrightarrow> (\<exists>err. parseLeafsResponse c V (LeafsReq req) data = Err err))
         \<and> (parseLeafsResponse c V (LeafsReq req) data = Ok v \<longrightarrow> ProofKeys resp \<noteq> []
            \<longrightarrow> length (ProofKeys resp) = length (ProofVals resp))"
  using assms
  by (auto simp: parseLeafsResponse_def leafs_proof_def split: if_splits result.splits sum.splits)

theorem parseLeafsResponse_proof_pairing_witness:
  "parseLeafsResponse
       (stub_client failing_net (stub_codec unpaired_proof \<lparr>Blocks = []\<rparr> \<lparr>Data = []\<rparr>))
       length_checking_verifier (LeafsReq leafs_request) []
     = (Err (errProofMismatch 1 0) :: unit parsed result)
   \<and> parseLeafsResponse
       (stub_client failing_net (stub_codec proof_only \<lparr>Blocks = []\<rparr> \<lparr>Data = []\<rparr>))
       length_checking_verifier (LeafsReq leafs_request) []
     = (Ok (LeafsResult (proof_only\<lparr>More := True\<rparr>)) :: unit parsed result)
   \<and> length (ProofKeys proof_only) = length (ProofVals proof_only)"
  using parseLeafsResponse_proof_pairing [of
      "stub_client failing_net (stub_codec unpaired_proof \<lparr>Blocks = []\<rparr> \<lparr>Data = []\<rparr>)"
      "[]" unpaired_proof length_checking_verifier leafs_request
      "LeafsResult unpaired_proof :: unit parsed"]
    parseLeafsResponse_proof_pairing [of
      "stub_client failing_net (stub_codec proof_only \<lparr>Blocks = []\<rparr> \<lparr>Data = []\<rparr>)"
      "[]" proof_only length_checking_verifier leafs_request
      "LeafsResult (proof_only\<lparr>More := True\<rparr>) :: unit parsed"]
  by (simp add: stub_client_def NewClient_def stub_codec_def unpaired_proof_def proof_only_def
      leafs_request_def parseLeafsResponse_def leafs_proof_def leafs_firstKey_def
      leafs_lastKey_def length_checking_verifier_def)

lemma dom_fold_Put: "dom (fold Put kvs db) = dom db \<union> fst ` set kvs"
  by (induction kvs arbitrary: db) (auto simp: Put_def)

lemma fold_Put_map_of: "fold Put kvs db = db ++ map_of (rev kvs)"
proof (induction kvs arbitrary: db)
  case Nil
  then show ?case by simp
next
  case (Cons kv kvs)
  obtain k v where kv: "kv = (k, v)" by (cases kv)
  have "fold Put (kv # kvs) db = Put kv db ++ map_of (rev kvs)"
    using Cons.IH [of "Put kv db"] by simp
  also have "Put kv db = db ++ [k \<mapsto> v]"
    by (simp add: Put_def kv)
  also have "db ++ [k \<mapsto> v] ++ map_of (rev kvs) = db ++ map_of (rev (kv # kvs))"
    by (simp add: kv)
  finally show ?case .
qed

text \<open>
  C6. A decoded leafs response with no Keys and no proof keys is rejected with an
  error: the too-many-leaves error when it has more Vals than Limit, the
  empty-key-response error of line 127 otherwise. An accepted response with no Keys
  has proof keys, and the proof store built from them is not empty.
\<close>

theorem parseLeafsResponse_empty_keys:
  assumes "UnmarshalLeafs (codec c) data = Inr resp"
  shows "(Keys resp = [] \<longrightarrow> ProofKeys resp = []
            \<longrightarrow> parseLeafsResponse c V (LeafsReq req) data
                  = Err (if unat (Limit req) < length (Vals resp)
                         then errTooManyLeaves 0 (Limit req) else errEmptyKeyResponse))
         \<and> (parseLeafsResponse c V (LeafsReq req) data = Ok v \<longrightarrow> Keys resp = []
            \<longrightarrow> ProofKeys resp \<noteq> []
                \<and> (\<exists>db. leafs_proof resp = Ok (Some db) \<and> db \<noteq> Map.empty))"
proof (intro conjI impI)
  assume "Keys resp = []" "ProofKeys resp = []"
  with assms show "parseLeafsResponse c V (LeafsReq req) data
                  = Err (if unat (Limit req) < length (Vals resp)
                         then errTooManyLeaves 0 (Limit req) else errEmptyKeyResponse)"
    by (simp add: parseLeafsResponse_def)
next
  assume ok: "parseLeafsResponse c V (LeafsReq req) data = Ok v" and empty: "Keys resp = []"
  from parseLeafsResponse_Ok_D [OF assms ok] empty
  obtain store where pk: "ProofKeys resp \<noteq> []" and store: "leafs_proof resp = Ok store"
    by auto
  show "ProofKeys resp \<noteq> []" by (fact pk)
  from pk store have len: "length (ProofKeys resp) = length (ProofVals resp)"
    and db: "store = Some (fold Put (zip (ProofKeys resp) (ProofVals resp)) Map.empty)"
    by (auto simp: leafs_proof_def split: if_splits)
  from pk len have "zip (ProofKeys resp) (ProofVals resp) \<noteq> []"
    by (cases "ProofKeys resp"; cases "ProofVals resp") auto
  then have "dom (fold Put (zip (ProofKeys resp) (ProofVals resp)) Map.empty) \<noteq> {}"
    by (simp add: dom_fold_Put)
  then have "fold Put (zip (ProofKeys resp) (ProofVals resp)) Map.empty \<noteq> Map.empty"
    by auto
  with store db show "\<exists>db. leafs_proof resp = Ok (Some db) \<and> db \<noteq> Map.empty"
    by simp
qed

theorem parseLeafsResponse_empty_keys_witness:
  "parseLeafsResponse
       (stub_client failing_net (stub_codec no_leafs \<lparr>Blocks = []\<rparr> \<lparr>Data = []\<rparr>))
       length_checking_verifier (LeafsReq leafs_request) []
     = (Err errEmptyKeyResponse :: unit parsed result)
   \<and> parseLeafsResponse
       (stub_client failing_net (stub_codec proof_only \<lparr>Blocks = []\<rparr> \<lparr>Data = []\<rparr>))
       length_checking_verifier (LeafsReq leafs_request) []
     = (Ok (LeafsResult (proof_only\<lparr>More := True\<rparr>)) :: unit parsed result)
   \<and> ProofKeys proof_only \<noteq> []
   \<and> (\<exists>db. leafs_proof proof_only = Ok (Some db) \<and> db \<noteq> Map.empty)"
  using parseLeafsResponse_empty_keys [of
      "stub_client failing_net (stub_codec no_leafs \<lparr>Blocks = []\<rparr> \<lparr>Data = []\<rparr>)"
      "[]" no_leafs length_checking_verifier leafs_request
      "LeafsResult no_leafs :: unit parsed"]
    parseLeafsResponse_empty_keys [of
      "stub_client failing_net (stub_codec proof_only \<lparr>Blocks = []\<rparr> \<lparr>Data = []\<rparr>)"
      "[]" proof_only length_checking_verifier leafs_request
      "LeafsResult (proof_only\<lparr>More := True\<rparr>) :: unit parsed"]
  by (simp add: stub_client_def NewClient_def stub_codec_def no_leafs_def proof_only_def
      leafs_request_def parseLeafsResponse_def leafs_proof_def leafs_firstKey_def
      leafs_lastKey_def length_checking_verifier_def)

text \<open>
  C7. For a decoded leafs response that passes the length checks (lines 121 and 134)
  and the empty-keys check (line 126), the result of the validator is the result of
  the range proof verifier, called with the request's root, with the request's Start
  when it is present and else as many zero bytes as End is long, with the last of Keys
  when there are keys and else End, with Keys and Vals as they came, and with the store
  of the proof pairs (nil when there are no proof keys; a later pair with the same key
  replaces an earlier one). A verifier error is wrapped as an invalid range proof; on
  success the response is returned with nothing changed but More, which is the
  verifier's answer.
\<close>

theorem parseLeafsResponse_verifier_call:
  assumes "UnmarshalLeafs (codec c) data = Inr resp"
    and "length (Keys resp) \<le> unat (Limit req)"
    and "length (Vals resp) \<le> unat (Limit req)"
    and "Keys resp \<noteq> [] \<or> ProofKeys resp \<noteq> []"
    and "ProofKeys resp \<noteq> [] \<longrightarrow> length (ProofKeys resp) = length (ProofVals resp)"
  shows "parseLeafsResponse c V (LeafsReq req) data =
     (case V (Root req)
             (case Start req of Some start \<Rightarrow> start | None \<Rightarrow> replicate (length (End req)) 0)
             (if Keys resp = [] then End req else last (Keys resp))
             (Keys resp) (Vals resp)
             (if ProofKeys resp = [] then None
              else Some (map_of (rev (zip (ProofKeys resp) (ProofVals resp))))) of
        Inl err \<Rightarrow> Err (errInvalidRangeProof err)
      | Inr hasMore \<Rightarrow>
          Ok (LeafsResult \<lparr>Keys = Keys resp, Vals = Vals resp, More = hasMore,
                ProofKeys = ProofKeys resp, ProofVals = ProofVals resp\<rparr>))"
proof -
  have first: "leafs_firstKey req
      = (case Start req of Some start \<Rightarrow> start | None \<Rightarrow> replicate (length (End req)) 0)"
    by (simp add: leafs_firstKey_def split: option.splits)
  have last: "leafs_lastKey req resp = (if Keys resp = [] then End req else last (Keys resp))"
    by (simp add: leafs_lastKey_def last_conv_nth)
  from assms(5) have store: "leafs_proof resp
      = Ok (if ProofKeys resp = [] then None
            else Some (map_of (rev (zip (ProofKeys resp) (ProofVals resp)))))"
    by (simp add: leafs_proof_def fold_Put_map_of)
  have upd: "resp\<lparr>More := hasMore\<rparr>
      = \<lparr>Keys = Keys resp, Vals = Vals resp, More = hasMore,
         ProofKeys = ProofKeys resp, ProofVals = ProofVals resp\<rparr>" for hasMore
    by (cases resp) simp
  from assms(2-4) have checks:
    "\<not> (unat (Limit req) < length (Keys resp) \<or> unat (Limit req) < length (Vals resp))"
    "\<not> (length (Keys resp) = 0 \<and> length (ProofKeys resp) = 0)"
    by auto
  have "parseLeafsResponse c V (LeafsReq req) data =
     (case V (Root req) (leafs_firstKey req) (leafs_lastKey req resp) (Keys resp) (Vals resp)
             (if ProofKeys resp = [] then None
              else Some (map_of (rev (zip (ProofKeys resp) (ProofVals resp))))) of
        Inl err \<Rightarrow> Err (errInvalidRangeProof err)
      | Inr hasMore \<Rightarrow> Ok (LeafsResult (resp\<lparr>More := hasMore\<rparr>)))"
    unfolding parseLeafsResponse_def
    by (simp only: assms(1) checks store sum.case Request.case if_False result.case)
  then show ?thesis
    by (simp only: first last upd)
qed

theorem parseLeafsResponse_verifier_call_witness:
  "parseLeafsResponse (stub_client failing_net (stub_codec one_leaf \<lparr>Blocks = []\<rparr> \<lparr>Data = []\<rparr>))
       bounds_verifier (LeafsReq leafs_request) []
     = (Ok (LeafsResult (one_leaf\<lparr>More := True\<rparr>)) :: unit parsed result)"
  using parseLeafsResponse_verifier_call [of
      "stub_client failing_net (stub_codec one_leaf \<lparr>Blocks = []\<rparr> \<lparr>Data = []\<rparr>)"
      "[]" one_leaf leafs_request bounds_verifier]
  by (simp add: stub_client_def NewClient_def stub_codec_def one_leaf_def leafs_request_def
      bounds_verifier_def)

section \<open>The retry loop\<close>

subsection \<open>Traces\<close>

lemma payloads_append [simp]: "payloads (u @ w) = payloads u @ payloads w"
  by (induction u rule: payloads.induct) simp_all

lemma peers_append [simp]: "peers (u @ w) = peers u @ peers w"
  by (induction u rule: peers.induct) simp_all

lemma failures_append [simp]: "failures (u @ w) = failures u @ failures w"
  by (induction u rule: failures.induct) simp_all

lemma encodes_append [simp]: "encodes (u @ w) = encodes u @ encodes w"
  by (induction u rule: encodes.induct) simp_all

lemma timeline_append [simp]: "timeline (u @ w) = timeline u @ timeline w"
  by (induction u rule: timeline.induct) simp_all

subsection \<open>One attempt\<close>

lemma unat_attempt_Suc:
  fixes attempt attempts :: "8 word"
  assumes "attempt < attempts"
  shows "unat (attempt + 1) = Suc (unat attempt)"
proof -
  have "unat attempts < 2 ^ 8"
    using unsigned_less [of attempts, where ?'a = nat] by simp
  moreover from assms have "unat attempt < unat attempts"
    by (simp add: word_less_nat_alt)
  ultimately show ?thesis
    by (simp add: unat_word_ariths)
qed

lemma word8_inc:
  fixes attempt attempts :: "8 word"
  assumes "attempt < attempts"
  shows "attempt + 1 \<le> attempts" and "0 < attempt + 1" and "attempt + 1 \<noteq> 0"
proof -
  from assms show "attempt + 1 \<le> attempts" by (rule inc_le)
  from unat_attempt_Suc [OF assms] have "unat (attempt + 1) \<noteq> 0" by simp
  then show "attempt + 1 \<noteq> 0" by (metis unat_0)
  then show "0 < attempt + 1" by (simp add: word_greater_zero_iff)
qed

lemma send_cases:
  assumes "send c b w = ((resp, nodeID), c1, w1)"
  shows "(stateSyncNodes c = [] \<and> c1 = c \<and> w1 = w @ [EvRequestAny StateSyncVersion b]
            \<and> RequestAny (networkClient c) w StateSyncVersion b = (resp, nodeID))
         \<or> (stateSyncNodes c \<noteq> []
            \<and> c1 = c\<lparr>nodeIdx := (nodeIdx c + 1) mod length (stateSyncNodes c)\<rparr>
            \<and> nodeID = stateSyncNodes c ! ((nodeIdx c + 1) mod length (stateSyncNodes c))
            \<and> w1 = w @ [EvRequest nodeID b]
            \<and> Request (networkClient c) w nodeID b = resp)"
  using assms by (auto simp: send_def Let_def split: if_splits)

lemma send_answers:
  assumes "send c b w = ((Inr response, nodeID), c1, w1)"
  shows "answers (networkClient c) b response"
  using send_cases [OF assms] unfolding answers_def
  by (metis fst_conv)

lemma backoff_cases:
  "(0 < attempt \<and> sint d \<le> 0 \<and> backoff Int63 d attempt w = Panic ''invalid argument to Int63n'')
   \<or> ((0 < attempt \<longrightarrow> 0 < sint d)
      \<and> backoff Int63 d attempt w
          = Ok (w @ (if 0 < attempt then [EvSleep (Int63 w mod sint d)] else [])))"
  by (auto simp: backoff_def Int63n_def)

text \<open>What one pass through the loop body appends to the trace.\<close>

lemma attempt_once_cases:
  assumes "attempt_once Int63 parseFn request b d attempt c w = (s, c1, w1)"
  shows "(0 < attempt \<and> sint d \<le> 0 \<and> s = Stop (Panic ''invalid argument to Int63n'')
            \<and> c1 = c \<and> w1 = w)
         \<or> ((0 < attempt \<longrightarrow> 0 < sint d)
            \<and> (\<exists>slp resp nodeID sd lg.
                  slp = (if 0 < attempt then [EvSleep (Int63 w mod sint d)] else [])
                  \<and> send c b (w @ slp) = ((resp, nodeID), c1, w @ slp @ [sd])
                  \<and> w1 = w @ slp @ [sd] @ lg
                  \<and> (case resp of
                        Inl err \<Rightarrow> s = Retry err \<and> lg = [EvLogRequestFailed nodeID attempt err]
                      | Inr response \<Rightarrow>
                          (case parseFn request response of
                             Err err \<Rightarrow>
                               s = Retry err \<and> lg = [EvLogInvalidResponse nodeID attempt err]
                           | Ok v \<Rightarrow> s = Stop (Ok v) \<and> lg = []
                           | Panic p \<Rightarrow> s = Stop (Panic p) \<and> lg = []))))"
proof -
  from backoff_cases [of attempt d Int63 w] show ?thesis
  proof
    assume "0 < attempt \<and> sint d \<le> 0
        \<and> backoff Int63 d attempt w = Panic ''invalid argument to Int63n''"
    with assms show ?thesis by (simp add: attempt_once_def)
  next
    define slp where "slp = (if 0 < attempt then [EvSleep (Int63 w mod sint d)] else [])"
    assume "(0 < attempt \<longrightarrow> 0 < sint d)
      \<and> backoff Int63 d attempt w
          = Ok (w @ (if 0 < attempt then [EvSleep (Int63 w mod sint d)] else []))"
    then have pos: "0 < attempt \<longrightarrow> 0 < sint d" and bo: "backoff Int63 d attempt w = Ok (w @ slp)"
      by (simp_all add: slp_def)
    obtain resp nodeID c2 w2 where snd: "send c b (w @ slp) = ((resp, nodeID), c2, w2)"
      by (metis prod.exhaust)
    from send_cases [OF snd] obtain sd where w2: "w2 = w @ slp @ [sd]" by auto
    have ?thesis if "c1 = c2" and "w1 = w2 @ lg"
      and "case resp of
              Inl err \<Rightarrow> s = Retry err \<and> lg = [EvLogRequestFailed nodeID attempt err]
            | Inr response \<Rightarrow>
                (case parseFn request response of
                   Err err \<Rightarrow> s = Retry err \<and> lg = [EvLogInvalidResponse nodeID attempt err]
                 | Ok v \<Rightarrow> s = Stop (Ok v) \<and> lg = []
                 | Panic p \<Rightarrow> s = Stop (Panic p) \<and> lg = [])" for lg
      using that pos snd w2 unfolding slp_def [symmetric] by (intro disjI2 conjI exI) auto
    moreover from assms bo snd
    have "\<exists>lg. c1 = c2 \<and> w1 = w2 @ lg
      \<and> (case resp of
              Inl err \<Rightarrow> s = Retry err \<and> lg = [EvLogRequestFailed nodeID attempt err]
            | Inr response \<Rightarrow>
                (case parseFn request response of
                   Err err \<Rightarrow> s = Retry err \<and> lg = [EvLogInvalidResponse nodeID attempt err]
                 | Ok v \<Rightarrow> s = Stop (Ok v) \<and> lg = []
                 | Panic p \<Rightarrow> s = Stop (Panic p) \<and> lg = []))"
      by (auto simp: attempt_once_def split: sum.splits result.splits)
    ultimately show ?thesis by blast
  qed
qed

text \<open>A validator error is a \<^verbatim>\<open>continue\<close>: the loop logs it and goes on to the next attempt.\<close>

lemma validator_error_is_retried:
  assumes "backoff Int63 d attempt w = Ok w1"
    and "send c b w1 = ((Inr response, nodeID), c1, w2)"
    and "parseFn request response = Err err"
  shows "attempt_once Int63 parseFn request b d attempt c w
      = (Retry err, c1, w2 @ [EvLogInvalidResponse nodeID attempt err])"
  using assms by (simp add: attempt_once_def)

lemma attempt_once_extends:
  assumes "attempt_once Int63 parseFn request b d attempt c w = (s, c1, w1)"
  shows "\<exists>new. w1 = w @ new"
  using attempt_once_cases [OF assms] by auto

lemma attempt_once_effect:
  assumes once: "attempt_once Int63 parseFn request b d attempt c w = (s, c1, w1)"
    and w1: "w1 = w @ new"
  shows "(0 < attempt \<and> sint d \<le> 0 \<and> s = Stop (Panic ''invalid argument to Int63n'')
            \<and> c1 = c \<and> new = [])
         \<or> ((0 < attempt \<longrightarrow> 0 < sint d)
            \<and> encodes new = []
            \<and> payloads new = [b]
            \<and> peers new = (if stateSyncNodes c = [] then []
                 else [stateSyncNodes c ! ((nodeIdx c + 1) mod length (stateSyncNodes c))])
            \<and> c1 = (if stateSyncNodes c = [] then c
                 else c\<lparr>nodeIdx := (nodeIdx c + 1) mod length (stateSyncNodes c)\<rparr>)
            \<and> timeline new = (if 0 < attempt then [Some (Int63 w mod sint d), None] else [None])
            \<and> (case s of
                  Retry err \<Rightarrow> failures new = [err]
                | Stop r \<Rightarrow> failures new = []
                    \<and> (\<exists>response. answers (networkClient c) b response
                          \<and> parseFn request response = r)
                    \<and> (\<forall>err. r \<noteq> Err err)))"
proof -
  from attempt_once_cases [OF once] show ?thesis
  proof (elim disjE conjE exE)
    assume "0 < attempt" "sint d \<le> 0" "s = Stop (Panic ''invalid argument to Int63n'')"
      "c1 = c" "w1 = w"
    with w1 show ?thesis by simp
  next
    fix slp resp nodeID sd lg
    assume pos: "0 < attempt \<longrightarrow> 0 < sint d"
      and slp: "slp = (if 0 < attempt then [EvSleep (Int63 w mod sint d)] else [])"
      and snd: "send c b (w @ slp) = ((resp, nodeID), c1, w @ slp @ [sd])"
      and w1': "w1 = w @ slp @ [sd] @ lg"
      and res: "case resp of
          Inl err \<Rightarrow> s = Retry err \<and> lg = [EvLogRequestFailed nodeID attempt err]
        | Inr response \<Rightarrow>
            (case parseFn request response of
               Err err \<Rightarrow> s = Retry err \<and> lg = [EvLogInvalidResponse nodeID attempt err]
             | Ok v \<Rightarrow> s = Stop (Ok v) \<and> lg = []
             | Panic p \<Rightarrow> s = Stop (Panic p) \<and> lg = [])"
    from w1 w1' have new: "new = slp @ [sd] @ lg" by simp
    from send_cases [OF snd]
    have sd: "sd = (if stateSyncNodes c = [] then EvRequestAny StateSyncVersion b
                else EvRequest (stateSyncNodes c ! ((nodeIdx c + 1) mod length (stateSyncNodes c))) b)"
      and c1: "c1 = (if stateSyncNodes c = [] then c
                 else c\<lparr>nodeIdx := (nodeIdx c + 1) mod length (stateSyncNodes c)\<rparr>)"
      by auto
    have lg: "encodes lg = [] \<and> payloads lg = [] \<and> peers lg = [] \<and> timeline lg = []
        \<and> (case s of
              Retry err \<Rightarrow> failures lg = [err]
            | Stop r \<Rightarrow> failures lg = []
                \<and> (\<exists>response. answers (networkClient c) b response \<and> parseFn request response = r)
                \<and> (\<forall>err. r \<noteq> Err err))"
    proof (cases resp)
      case (Inl err)
      with res show ?thesis by simp
    next
      case (Inr response)
      with snd have "answers (networkClient c) b response"
        by (auto dest: send_answers)
      with res Inr show ?thesis
        by (cases "parseFn request response") auto
    qed
    have "encodes new = []" "payloads new = [b]"
      "peers new = (if stateSyncNodes c = [] then []
                 else [stateSyncNodes c ! ((nodeIdx c + 1) mod length (stateSyncNodes c))])"
      "timeline new = (if 0 < attempt then [Some (Int63 w mod sint d), None] else [None])"
      using lg by (simp_all add: new slp sd)
    moreover have "case s of
                  Retry err \<Rightarrow> failures new = [err]
                | Stop r \<Rightarrow> failures new = []
                    \<and> (\<exists>response. answers (networkClient c) b response
                          \<and> parseFn request response = r)
                    \<and> (\<forall>err. r \<noteq> Err err)"
      using lg by (cases s) (simp_all add: new slp sd)
    ultimately show ?thesis using pos c1 by blast
  qed
qed

text \<open>The answer an attempt acts on is the transport's answer at a point of the run with the same sends.\<close>

lemma attempt_once_answer:
  assumes once: "attempt_once Int63 parseFn request b d attempt c w = (s, c1, w1)"
  shows "(0 < attempt \<and> sint d \<le> 0 \<and> s = Stop (Panic ''invalid argument to Int63n'')
            \<and> c1 = c \<and> w1 = w)
         \<or> (\<exists>h res. payloads h = payloads w
               \<and> (res = fst (RequestAny (networkClient c) h StateSyncVersion b)
                    \<or> (\<exists>nodeID. res = Request (networkClient c) h nodeID b))
               \<and> (case res of
                     Inl err \<Rightarrow> s = Retry err
                   | Inr response \<Rightarrow>
                       (case parseFn request response of
                          Err err \<Rightarrow> s = Retry err
                        | Ok v \<Rightarrow> s = Stop (Ok v)
                        | Panic p \<Rightarrow> s = Stop (Panic p))))"
proof -
  from attempt_once_cases [OF once] show ?thesis
  proof (elim disjE conjE exE)
    assume "0 < attempt" "sint d \<le> 0" "s = Stop (Panic ''invalid argument to Int63n'')"
      "c1 = c" "w1 = w"
    then show ?thesis by simp
  next
    fix slp resp nodeID sd lg
    assume slp: "slp = (if 0 < attempt then [EvSleep (Int63 w mod sint d)] else [])"
      and snd: "send c b (w @ slp) = ((resp, nodeID), c1, w @ slp @ [sd])"
      and res: "case resp of
          Inl err \<Rightarrow> s = Retry err \<and> lg = [EvLogRequestFailed nodeID attempt err]
        | Inr response \<Rightarrow>
            (case parseFn request response of
               Err err \<Rightarrow> s = Retry err \<and> lg = [EvLogInvalidResponse nodeID attempt err]
             | Ok v \<Rightarrow> s = Stop (Ok v) \<and> lg = []
             | Panic p \<Rightarrow> s = Stop (Panic p) \<and> lg = [])"
    have h: "payloads (w @ slp) = payloads w" by (simp add: slp)
    from send_cases [OF snd]
    have from_net: "resp = fst (RequestAny (networkClient c) (w @ slp) StateSyncVersion b)
        \<or> (\<exists>nodeID. resp = Request (networkClient c) (w @ slp) nodeID b)"
      by auto
    have outcome: "case resp of
          Inl err \<Rightarrow> s = Retry err
        | Inr response \<Rightarrow>
            (case parseFn request response of
               Err err \<Rightarrow> s = Retry err
             | Ok v \<Rightarrow> s = Stop (Ok v)
             | Panic p \<Rightarrow> s = Stop (Panic p))"
      using res by (auto split: sum.splits result.splits)
    from h from_net outcome show ?thesis by blast
  qed
qed

lemma attempt_once_rejected:
  assumes once: "attempt_once Int63 parseFn request b d attempt c w = (Stop r, c1, w1)"
    and rej: "\<And>h. payloads h = payloads w \<Longrightarrow> rejected_at (networkClient c) parseFn request b h"
  shows "0 < attempt \<and> sint d \<le> 0 \<and> r = Panic ''invalid argument to Int63n''"
proof -
  from attempt_once_answer [OF once] show ?thesis
  proof
    assume "0 < attempt \<and> sint d \<le> 0 \<and> Stop r = Stop (Panic ''invalid argument to Int63n'')
        \<and> c1 = c \<and> w1 = w"
    then show ?thesis by simp
  next
    assume "\<exists>h res. payloads h = payloads w
               \<and> (res = fst (RequestAny (networkClient c) h StateSyncVersion b)
                    \<or> (\<exists>nodeID. res = Request (networkClient c) h nodeID b))
               \<and> (case res of
                     Inl err \<Rightarrow> Stop r = Retry err
                   | Inr response \<Rightarrow>
                       (case parseFn request response of
                          Err err \<Rightarrow> Stop r = Retry err
                        | Ok v \<Rightarrow> Stop r = Stop (Ok v)
                        | Panic p \<Rightarrow> Stop r = Stop (Panic p)))"
    then obtain h res where h: "payloads h = payloads w"
      and net: "res = fst (RequestAny (networkClient c) h StateSyncVersion b)
                    \<or> (\<exists>nodeID. res = Request (networkClient c) h nodeID b)"
      and out: "case res of
                     Inl err \<Rightarrow> Stop r = Retry err
                   | Inr response \<Rightarrow>
                       (case parseFn request response of
                          Err err \<Rightarrow> Stop r = Retry err
                        | Ok v \<Rightarrow> Stop r = Stop (Ok v)
                        | Panic p \<Rightarrow> Stop r = Stop (Panic p))"
      by blast
    from rej [OF h] net
    have "case res of Inl err \<Rightarrow> True | Inr response \<Rightarrow> (\<exists>err. parseFn request response = Err err)"
      unfolding rejected_at_def by blast
    with out have False by (auto split: sum.splits)
    then show ?thesis ..
  qed
qed


lemma sleeps_drawn_append:
  "sleeps_drawn Int63 n h (xs @ ys)
     \<longleftrightarrow> sleeps_drawn Int63 n h xs \<and> sleeps_drawn Int63 n (h @ xs) ys"
proof (induction xs arbitrary: h)
  case Nil
  then show ?case by simp
next
  case (Cons ev xs)
  then show ?case by (cases ev) simp_all
qed

lemma attempt_once_drawn:
  assumes once: "attempt_once Int63 parseFn request b d attempt c w = (s, c1, w1)"
    and w1: "w1 = w @ new"
  shows "sleeps_drawn Int63 (sint d) w new"
proof -
  from attempt_once_cases [OF once] show ?thesis
  proof (elim disjE conjE exE)
    assume "w1 = w"
    with w1 show ?thesis by simp
  next
    fix slp resp nodeID sd lg
    assume pos: "0 < attempt \<longrightarrow> 0 < sint d"
      and slp: "slp = (if 0 < attempt then [EvSleep (Int63 w mod sint d)] else [])"
      and snd: "send c b (w @ slp) = ((resp, nodeID), c1, w @ slp @ [sd])"
      and w1': "w1 = w @ slp @ [sd] @ lg"
      and res: "case resp of
          Inl err \<Rightarrow> s = Retry err \<and> lg = [EvLogRequestFailed nodeID attempt err]
        | Inr response \<Rightarrow>
            (case parseFn request response of
               Err err \<Rightarrow> s = Retry err \<and> lg = [EvLogInvalidResponse nodeID attempt err]
             | Ok v \<Rightarrow> s = Stop (Ok v) \<and> lg = []
             | Panic p \<Rightarrow> s = Stop (Panic p) \<and> lg = [])"
    from w1 w1' have new: "new = slp @ [sd] @ lg" by simp
    from send_cases [OF snd]
    have sd: "sd = EvRequestAny StateSyncVersion b \<or> (\<exists>n. sd = EvRequest n b)"
      by auto
    from res have lg: "lg = [] \<or> (\<exists>n err. lg = [EvLogRequestFailed n attempt err])
        \<or> (\<exists>n err. lg = [EvLogInvalidResponse n attempt err])"
      by (auto split: sum.splits result.splits)
    have "sleeps_drawn Int63 (sint d) w slp"
      using pos by (auto simp: slp Int63n_def)
    moreover have "sleeps_drawn Int63 (sint d) (w @ slp) ([sd] @ lg)"
      using sd lg by auto
    ultimately show ?thesis
      unfolding new by (simp only: sleeps_drawn_append)
  qed
qed

subsection \<open>Loop rules\<close>

text \<open>
  An invariant rule for the loop: \<open>I\<close> holds at the loop head, every \<^verbatim>\<open>continue\<close> keeps
  it, and every way out of the loop establishes \<open>Q\<close>.
\<close>

lemma get_loop_rule:
  assumes inv: "I attempt err c w"
    and retry: "\<And>attempt err c w err' c1 w1.
        \<lbrakk>I attempt err c w; attempt < attempts;
         attempt_once Int63 parseFn request b d attempt c w = (Retry err', c1, w1)\<rbrakk>
        \<Longrightarrow> I (attempt + 1) (Some err') c1 w1"
    and stop: "\<And>attempt err c w r c1 w1.
        \<lbrakk>I attempt err c w; attempt < attempts;
         attempt_once Int63 parseFn request b d attempt c w = (Stop r, c1, w1)\<rbrakk>
        \<Longrightarrow> Q (r, c1, w1)"
    and exhausted: "\<And>attempt err c w.
        \<lbrakk>I attempt err c w; \<not> attempt < attempts\<rbrakk>
        \<Longrightarrow> Q (Err (errExceededRetryLimit attempts err), c, w)"
  shows "Q (get_loop Int63 parseFn request b attempts d attempt err c w)"
  using assms
proof (induction Int63 parseFn request b attempts d attempt err c w rule: get_loop.induct)
  case (1 Int63 parseFn request b attempts d attempt err c w)
  note inv = "1.prems"(1) and retry = "1.prems"(2) and stop = "1.prems"(3)
    and exhausted = "1.prems"(4)
  show ?case
  proof (cases "attempt < attempts")
    case False
    with exhausted [OF inv] show ?thesis by simp
  next
    case True
    obtain s c1 w1 where once: "attempt_once Int63 parseFn request b d attempt c w = (s, c1, w1)"
      by (cases "attempt_once Int63 parseFn request b d attempt c w") auto
    show ?thesis
    proof (cases s)
      case (Retry err')
      from retry [OF inv True once [unfolded Retry]]
      have "I (attempt + 1) (Some err') c1 w1" .
      from "1.IH" [OF True once [unfolded Retry, symmetric] refl refl this retry stop exhausted]
        True once Retry
      show ?thesis by simp
    next
      case (Stop r)
      from stop [OF inv True once [unfolded Stop]] True once Stop
      show ?thesis by simp
    qed
  qed
qed

lemma get_loop_events_rule:
  assumes init: "J attempt err c []"
    and retry: "\<And>attempt err c evs err' c1 new.
        \<lbrakk>J attempt err c evs; attempt < attempts;
         attempt_once Int63 parseFn request b d attempt c (w @ evs) = (Retry err', c1, w @ evs @ new)\<rbrakk>
        \<Longrightarrow> J (attempt + 1) (Some err') c1 (evs @ new)"
    and stop: "\<And>attempt err c evs r c1 new.
        \<lbrakk>J attempt err c evs; attempt < attempts;
         attempt_once Int63 parseFn request b d attempt c (w @ evs) = (Stop r, c1, w @ evs @ new)\<rbrakk>
        \<Longrightarrow> Q r c1 (evs @ new)"
    and exhausted: "\<And>attempt err c evs.
        \<lbrakk>J attempt err c evs; \<not> attempt < attempts\<rbrakk>
        \<Longrightarrow> Q (Err (errExceededRetryLimit attempts err)) c evs"
  shows "\<exists>r c' evs. get_loop Int63 parseFn request b attempts d attempt err c w = (r, c', w @ evs)
           \<and> Q r c' evs"
proof (rule get_loop_rule [where I = "\<lambda>attempt err c w'. \<exists>evs. w' = w @ evs \<and> J attempt err c evs"
      and Q = "\<lambda>res. \<exists>r c' evs. res = (r, c', w @ evs) \<and> Q r c' evs"])
  show "\<exists>evs. w = w @ evs \<and> J attempt err c evs"
    using init by simp
next
  fix attempt err c w' err' c1 w1
  assume "\<exists>evs. w' = w @ evs \<and> J attempt err c evs" and less: "attempt < attempts"
    and once: "attempt_once Int63 parseFn request b d attempt c w' = (Retry err', c1, w1)"
  then obtain evs where w': "w' = w @ evs" and J: "J attempt err c evs" by blast
  from attempt_once_extends [OF once] w' obtain new where w1: "w1 = w @ evs @ new" by auto
  from retry [OF J less once [unfolded w' w1]] w1
  show "\<exists>evs. w1 = w @ evs \<and> J (attempt + 1) (Some err') c1 evs"
    by blast
next
  fix attempt err c w' r c1 w1
  assume "\<exists>evs. w' = w @ evs \<and> J attempt err c evs" and less: "attempt < attempts"
    and once: "attempt_once Int63 parseFn request b d attempt c w' = (Stop r, c1, w1)"
  then obtain evs where w': "w' = w @ evs" and J: "J attempt err c evs" by blast
  from attempt_once_extends [OF once] w' obtain new where w1: "w1 = w @ evs @ new" by auto
  from stop [OF J less once [unfolded w' w1]] w1
  show "\<exists>r' c' evs. (r, c1, w1) = (r', c', w @ evs) \<and> Q r' c' evs"
    by blast
next
  fix attempt err c w'
  assume "\<exists>evs. w' = w @ evs \<and> J attempt err c evs" and "\<not> attempt < attempts"
  with exhausted
  show "\<exists>r c' evs. (Err (errExceededRetryLimit attempts err), c, w') = (r, c', w @ evs) \<and> Q r c' evs"
    by blast
qed

lemma get_events_rule:
  assumes enc: "RequestToBytes (codec c) request = Inr b"
    and init: "J 0 None c []"
    and retry: "\<And>attempt err c evs err' c1 new.
        \<lbrakk>J attempt err c evs; attempt < attempts;
         attempt_once Int63 parseFn request b d attempt c ((w @ [EvEncode request]) @ evs)
           = (Retry err', c1, (w @ [EvEncode request]) @ evs @ new)\<rbrakk>
        \<Longrightarrow> J (attempt + 1) (Some err') c1 (evs @ new)"
    and stop: "\<And>attempt err c evs r c1 new.
        \<lbrakk>J attempt err c evs; attempt < attempts;
         attempt_once Int63 parseFn request b d attempt c ((w @ [EvEncode request]) @ evs)
           = (Stop r, c1, (w @ [EvEncode request]) @ evs @ new)\<rbrakk>
        \<Longrightarrow> Q r c1 (evs @ new)"
    and exhausted: "\<And>attempt err c evs.
        \<lbrakk>J attempt err c evs; \<not> attempt < attempts\<rbrakk>
        \<Longrightarrow> Q (Err (errExceededRetryLimit attempts err)) c evs"
  shows "\<exists>r c' evs. get Int63 c w request attempts d parseFn = (r, c', w @ EvEncode request # evs)
           \<and> Q r c' evs"
  using get_loop_events_rule [of J 0 None c attempts Int63 parseFn request b d
      "w @ [EvEncode request]" Q, OF init retry stop exhausted] enc
  by (simp add: get_def)

lemma backoff_pattern_snoc:
  assumes "backoff_pattern m xs" and "xs \<noteq> []" and "0 \<le> t" and "t < m"
  shows "backoff_pattern m (xs @ [Some t, None])"
  using assms by (induction m xs rule: backoff_pattern.induct) auto

lemma get_outcome:
  assumes enc: "RequestToBytes (codec c) request = Inr b"
  shows "\<exists>r c' evs. get Int63 c w request attempts d parseFn = (r, c', w @ EvEncode request # evs)
     \<and> networkClient c' = networkClient c
     \<and> (case r of
           Err e \<Rightarrow> e = errExceededRetryLimit attempts (last_error evs)
             \<and> length (payloads evs) = unat attempts \<and> length (failures evs) = unat attempts
         | Ok v \<Rightarrow> (\<exists>response. answers (networkClient c) b response
                      \<and> parseFn request response = Ok v)
         | Panic p \<Rightarrow> (sint d \<le> 0 \<and> 1 < attempts \<and> p = ''invalid argument to Int63n'')
             \<or> (\<exists>response. answers (networkClient c) b response
                      \<and> parseFn request response = Panic p))"
proof -
  define net where "net = networkClient c"
  define J where "J = (\<lambda>(attempt :: 8 word) err (c' :: client) evs.
      attempt \<le> attempts \<and> networkClient c' = net
      \<and> length (payloads evs) = unat attempt \<and> length (failures evs) = unat attempt
      \<and> err = last_error evs)"
  define Q where "Q = (\<lambda>r (c' :: client) evs. networkClient c' = net
     \<and> (case r of
           Err e \<Rightarrow> e = errExceededRetryLimit attempts (last_error evs)
             \<and> length (payloads evs) = unat attempts \<and> length (failures evs) = unat attempts
         | Ok v \<Rightarrow> (\<exists>response. answers net b response \<and> parseFn request response = Ok v)
         | Panic p \<Rightarrow> (sint d \<le> 0 \<and> 1 < attempts \<and> p = ''invalid argument to Int63n'')
             \<or> (\<exists>response. answers net b response \<and> parseFn request response = Panic p)))"
  have "\<exists>r c' evs. get Int63 c w request attempts d parseFn = (r, c', w @ EvEncode request # evs)
            \<and> Q r c' evs"
  proof (rule get_events_rule [where J = J, OF enc])
    show "J 0 None c []" by (simp add: J_def net_def last_error_def)
  next
    fix attempt err c0 evs err' c1 new
    assume J: "J attempt err c0 evs" and less: "attempt < attempts"
      and once: "attempt_once Int63 parseFn request b d attempt c0 ((w @ [EvEncode request]) @ evs)
           = (Retry err', c1, (w @ [EvEncode request]) @ evs @ new)"
    from attempt_once_effect [OF once]
    have "payloads new = [b]" "failures new = [err']" "networkClient c1 = networkClient c0"
      by auto
    with J word8_inc(1) [OF less] unat_attempt_Suc [OF less]
    show "J (attempt + 1) (Some err') c1 (evs @ new)"
      by (simp add: J_def last_error_def)
  next
    fix attempt err c0 evs r c1 new
    assume J: "J attempt err c0 evs" and less: "attempt < attempts"
      and once: "attempt_once Int63 parseFn request b d attempt c0 ((w @ [EvEncode request]) @ evs)
           = (Stop r, c1, (w @ [EvEncode request]) @ evs @ new)"
    from J have net: "networkClient c0 = net" by (simp add: J_def)
    from attempt_once_effect [OF once]
    consider (panic) "0 < attempt" "sint d \<le> 0" "r = Panic ''invalid argument to Int63n''" "c1 = c0"
      | (parsed) response where "answers net b response" "parseFn request response = r"
          "\<forall>err. r \<noteq> Err err" "networkClient c1 = net"
      using net by auto
    then show "Q r c1 (evs @ new)"
    proof cases
      case panic
      from panic(1) less have "1 < attempts"
        by (simp add: word_less_nat_alt)
      with panic net show ?thesis by (simp add: Q_def)
    next
      case parsed
      then show ?thesis by (cases r) (auto simp: Q_def)
    qed
  next
    fix attempt err c0 evs
    assume J: "J attempt err c0 evs" and "\<not> attempt < attempts"
    then have "attempt = attempts" by (simp add: J_def)
    with J show "Q (Err (errExceededRetryLimit attempts err)) c0 evs"
      by (simp add: J_def Q_def)
  qed
  then show ?thesis unfolding Q_def net_def by blast
qed


text \<open>A run in which every attempt fails: \<open>get\<close> uses all its attempts and reports the last error.\<close>

lemma get_fails_throughout:
  assumes enc: "RequestToBytes (codec c) request = Inr b"
    and fails: "\<And>h. length (payloads h) < length (payloads w) + unat attempts
        \<Longrightarrow> rejected_at (networkClient c) parseFn request b h"
    and delay: "attempts \<le> 1 \<or> 0 < sint d"
  shows "\<exists>c' evs. get Int63 c w request attempts d parseFn
             = (Err (errExceededRetryLimit attempts (last_error evs)), c',
                w @ EvEncode request # evs)
           \<and> length (payloads evs) = unat attempts \<and> length (failures evs) = unat attempts"
proof -
  define net where "net = networkClient c"
  define J where "J = (\<lambda>(attempt :: 8 word) err (c' :: client) evs.
      networkClient c' = net \<and> attempt \<le> attempts
      \<and> length (payloads evs) = unat attempt \<and> length (failures evs) = unat attempt
      \<and> err = last_error evs)"
  define Q where "Q = (\<lambda>(r :: 'a result) (c' :: client) evs.
      r = Err (errExceededRetryLimit attempts (last_error evs))
      \<and> length (payloads evs) = unat attempts \<and> length (failures evs) = unat attempts)"
  have "\<exists>r c' evs. get Int63 c w request attempts d parseFn = (r, c', w @ EvEncode request # evs)
            \<and> Q r c' evs"
  proof (rule get_events_rule [where J = J and Q = Q, OF enc])
    show "J 0 None c []" by (simp add: J_def net_def last_error_def)
  next
    fix attempt err c0 evs err' c1 new
    assume J: "J attempt err c0 evs" and less: "attempt < attempts"
      and once: "attempt_once Int63 parseFn request b d attempt c0 ((w @ [EvEncode request]) @ evs)
           = (Retry err', c1, (w @ [EvEncode request]) @ evs @ new)"
    from attempt_once_effect [OF once]
    have "payloads new = [b]" "failures new = [err']" "networkClient c1 = networkClient c0"
      by auto
    with J word8_inc(1) [OF less] unat_attempt_Suc [OF less]
    show "J (attempt + 1) (Some err') c1 (evs @ new)"
      by (simp add: J_def last_error_def)
  next
    fix attempt err c0 evs r c1 new
    assume J: "J attempt err c0 evs" and less: "attempt < attempts"
      and once: "attempt_once Int63 parseFn request b d attempt c0 ((w @ [EvEncode request]) @ evs)
           = (Stop r, c1, (w @ [EvEncode request]) @ evs @ new)"
    from J have net: "networkClient c0 = net"
      and counts: "length (payloads evs) = unat attempt"
      by (simp_all add: J_def)
    from less have lt: "unat attempt < unat attempts" by (simp add: word_less_nat_alt)
    have "rejected_at (networkClient c0) parseFn request b h"
      if "payloads h = payloads ((w @ [EvEncode request]) @ evs)" for h
      using that counts lt fails [of h] by (simp add: net net_def)
    from attempt_once_rejected [OF once this]
    have "0 < attempt \<and> sint d \<le> 0 \<and> r = Panic ''invalid argument to Int63n''" .
    moreover from this delay have "attempts \<le> 1" by auto
    ultimately have False using lt by (simp add: word_less_nat_alt word_le_nat_alt)
    then show "Q r c1 (evs @ new)" ..
  next
    fix attempt err c0 evs
    assume J: "J attempt err c0 evs" and "\<not> attempt < attempts"
    then have "attempt = attempts" by (simp add: J_def)
    with J show "Q (Err (errExceededRetryLimit attempts err)) c0 evs"
      by (simp add: J_def Q_def)
  qed
  then show ?thesis unfolding Q_def by blast
qed

lemma get_sleeps_drawn:
  assumes enc: "RequestToBytes (codec c) request = Inr b"
  shows "\<exists>r c' evs. get Int63 c w request attempts d parseFn = (r, c', w @ EvEncode request # evs)
           \<and> sleeps_drawn Int63 (sint d) (w @ [EvEncode request]) evs"
proof -
  define J where "J = (\<lambda>(attempt :: 8 word) (err :: error option) (c' :: client) evs.
      sleeps_drawn Int63 (sint d) (w @ [EvEncode request]) evs)"
  have step: "J a' e' c1 (evs @ new)"
    if "J a e c0 evs"
      and "attempt_once Int63 parseFn request b d a c0 ((w @ [EvEncode request]) @ evs)
           = (s, c1, (w @ [EvEncode request]) @ evs @ new)"
    for a a' e e' c0 c1 evs new s
    using that(1) attempt_once_drawn [OF that(2)]
    by (simp add: J_def sleeps_drawn_append)
  have "\<exists>r c' evs. get Int63 c w request attempts d parseFn = (r, c', w @ EvEncode request # evs)
            \<and> J 0 None c' evs"
  proof (rule get_events_rule [where J = J, OF enc])
    show "J 0 None c []" by (simp add: J_def)
  next
    fix attempt err c0 evs err' c1 new
    assume "J attempt err c0 evs"
      and "attempt_once Int63 parseFn request b d attempt c0 ((w @ [EvEncode request]) @ evs)
           = (Retry err', c1, (w @ [EvEncode request]) @ evs @ new)"
    then show "J (attempt + 1) (Some err') c1 (evs @ new)" by (rule step)
  next
    fix attempt err c0 evs r c1 new
    assume "J attempt err c0 evs"
      and "attempt_once Int63 parseFn request b d attempt c0 ((w @ [EvEncode request]) @ evs)
           = (Stop r, c1, (w @ [EvEncode request]) @ evs @ new)"
    then show "J 0 None c1 (evs @ new)" by (rule step)
  next
    fix attempt err c0 evs
    assume "J attempt err c0 evs"
    then show "J 0 None c0 evs" by (simp add: J_def)
  qed
  then show ?thesis by (simp add: J_def)
qed

lemma rotation_window:
  assumes "xs \<noteq> []"
  shows "map (\<lambda>k. xs ! ((s + k) mod length xs)) [j..<j + length xs] = rotate (s + j) xs"
proof (rule nth_equalityI)
  show "length (map (\<lambda>k. xs ! ((s + k) mod length xs)) [j..<j + length xs])
      = length (rotate (s + j) xs)"
    by simp
next
  fix i
  assume "i < length (map (\<lambda>k. xs ! ((s + k) mod length xs)) [j..<j + length xs])"
  then have i: "i < length xs" by simp
  then show "map (\<lambda>k. xs ! ((s + k) mod length xs)) [j..<j + length xs] ! i = rotate (s + j) xs ! i"
    by (simp add: nth_rotate add.assoc)
qed

lemma mset_rotate_eq: "mset (rotate n xs) = mset xs"
proof -
  have "mset (drop k xs @ take k xs) = mset (take k xs @ drop k xs)" for k
    by (simp only: mset_append add.commute)
  then show ?thesis by (simp add: rotate_drop_take)
qed

lemma window_of_map_upt:
  assumes "j + n \<le> m"
  shows "take n (drop j (map f [0..<m])) = map f [j..<j + n]"
proof -
  have "drop j [0..<m] = [j..<m]" by simp
  moreover from assms have "take n [j..<m] = [j..<j + n]" by simp
  ultimately show ?thesis by (simp add: take_map drop_map)
qed

section \<open>The retry engine\<close>

lemmas run_defs = get_def RequestToBytes_def attempt_once_def backoff_def send_def Int63n_def
  failing_client_def NewClient_def failing_net_def stub_codec_def code_request_def
  StateSyncVersion_def

subsection \<open>Exhaustion\<close>

text \<open>
  C1. The code breaks the claim when the retry delay is 0: with two attempts allowed
  and a transport that fails every time, \<open>get\<close> makes one attempt; before the second,
  line 280 calls \<^verbatim>\<open>rand.Int63n(0)\<close>, which panics. One attempt is made where the claim
  says two, and no retry-limit error is returned.
\<close>

theorem get_panics_before_retry:
  "get (\<lambda>w. 42) (failing_client 2 0 []) [] code_request 2 0
       (parseCode (failing_client 2 0 []) sum_hash :: Request \<Rightarrow> bytes \<Rightarrow> unit parsed result)
     = (Panic ''invalid argument to Int63n'', failing_client 2 0 [],
        [EvEncode code_request, EvRequestAny StateSyncVersion [7],
         EvLogRequestFailed 0 0 (External ''timeout'')])"
  by (simp add: run_defs)

text \<open>
  With a retry delay greater than 0 (or at most one attempt allowed) the code does what
  the claim says. When each of the first \<open>attempts\<close> sends of the call fails, with a
  transport error or a validator error, \<open>get\<close> makes exactly \<open>attempts\<close> sends, logs
  exactly \<open>attempts\<close> failures and returns the retry-limit error, which wraps the error
  of the last failed attempt (nil when \<open>attempts\<close> is 0). And an error \<open>get\<close> returns after
  the request was encoded is always that one, after exactly \<open>attempts\<close> failed sends.
\<close>

lemma get_exhausts_attempts:
  assumes enc: "RequestToBytes (codec c) request = Inr b"
  shows "((\<forall>h. length (payloads h) < length (payloads w) + unat attempts
              \<longrightarrow> rejected_at (networkClient c) parseFn request b h)
            \<longrightarrow> (0 < sint d \<or> attempts \<le> 1)
            \<longrightarrow> (\<exists>c' evs. get Int63 c w request attempts d parseFn
                    = (Err (errExceededRetryLimit attempts (last_error evs)), c',
                       w @ EvEncode request # evs)
                  \<and> length (payloads evs) = unat attempts
                  \<and> length (failures evs) = unat attempts))
         \<and> (get Int63 c w request attempts d parseFn = (Err e, c', w')
            \<longrightarrow> (\<exists>evs. w' = w @ EvEncode request # evs
                  \<and> e = errExceededRetryLimit attempts (last_error evs)
                  \<and> length (payloads evs) = unat attempts
                  \<and> length (failures evs) = unat attempts))"
proof (intro conjI impI)
  assume "\<forall>h. length (payloads h) < length (payloads w) + unat attempts
              \<longrightarrow> rejected_at (networkClient c) parseFn request b h"
    and "0 < sint d \<or> attempts \<le> 1"
  then show "\<exists>c' evs. get Int63 c w request attempts d parseFn
                    = (Err (errExceededRetryLimit attempts (last_error evs)), c',
                       w @ EvEncode request # evs)
                  \<and> length (payloads evs) = unat attempts
                  \<and> length (failures evs) = unat attempts"
    using get_fails_throughout [OF enc, where w = w and attempts = attempts
        and parseFn = parseFn and d = d and ?Int63.0 = Int63]
    by blast
next
  assume run: "get Int63 c w request attempts d parseFn = (Err e, c', w')"
  from get_outcome [OF enc, of Int63 w attempts d parseFn] run
  show "\<exists>evs. w' = w @ EvEncode request # evs
                  \<and> e = errExceededRetryLimit attempts (last_error evs)
                  \<and> length (payloads evs) = unat attempts
                  \<and> length (failures evs) = unat attempts"
    by auto
qed

lemma get_exhausts_attempts_example:
  "get (\<lambda>w. 1042) (failing_client 3 1000 [11, 12]) [] code_request 3 1000
       (parseCode (failing_client 3 1000 [11, 12]) sum_hash
          :: Request \<Rightarrow> bytes \<Rightarrow> unit parsed result)
     = (Err (errExceededRetryLimit 3 (Some (External ''timeout''))),
        (failing_client 3 1000 [11, 12])\<lparr>nodeIdx := 1\<rparr>,
        [EvEncode code_request,
         EvRequest 12 [7], EvLogRequestFailed 12 0 (External ''timeout''),
         EvSleep 42, EvRequest 11 [7], EvLogRequestFailed 11 1 (External ''timeout''),
         EvSleep 42, EvRequest 12 [7], EvLogRequestFailed 12 2 (External ''timeout'')])"
  using get_exhausts_attempts [where c = "failing_client 3 1000 [11, 12]"
      and request = code_request and b = "[7]" and w = "[]" and attempts = 3 and d = 1000
      and parseFn = "parseCode (failing_client 3 1000 [11, 12]) sum_hash
         :: Request \<Rightarrow> bytes \<Rightarrow> unit parsed result"
      and ?Int63.0 = "\<lambda>w. 1042"]
  by (simp add: run_defs rejected_at_def)

subsection \<open>Peer rotation\<close>

text \<open>
  C2. With a fixed peer list of length N that is not empty, every attempt of \<open>get\<close>
  goes to a listed peer: attempt number k of the call (from 0) moves the cursor to
  \<open>(cursor + 1 + k) mod N\<close>, counted from the cursor the call started with, and sends to
  the peer at that index. The cursor is left there, so the next call goes on from it.
  Hence any N consecutive attempts go to the peers of the list, each as often as the
  list has it: to N different peers when the listed peers are different.
\<close>

theorem get_round_robin:
  assumes nodes: "stateSyncNodes c \<noteq> []"
  shows "\<exists>r c' evs. get Int63 c w request attempts d parseFn = (r, c', w @ EvEncode request # evs)
     \<and> length (peers evs) = length (payloads evs)
     \<and> peers evs = map (\<lambda>k. stateSyncNodes c ! ((nodeIdx c + 1 + k) mod length (stateSyncNodes c)))
                      [0..<length (peers evs)]
     \<and> stateSyncNodes c' = stateSyncNodes c
     \<and> nodeIdx c' = (if peers evs = [] then nodeIdx c
                     else (nodeIdx c + length (peers evs)) mod length (stateSyncNodes c))
     \<and> (\<forall>j. j + length (stateSyncNodes c) \<le> length (peers evs)
          \<longrightarrow> mset (take (length (stateSyncNodes c)) (drop j (peers evs))) = mset (stateSyncNodes c)
              \<and> (distinct (stateSyncNodes c)
                   \<longrightarrow> distinct (take (length (stateSyncNodes c)) (drop j (peers evs)))))"
proof -
  define xs where "xs = stateSyncNodes c"
  define i0 where "i0 = nodeIdx c"
  define sel where "sel = (\<lambda>k. xs ! ((i0 + 1 + k) mod length xs))"
  define J where "J = (\<lambda>(attempt :: 8 word) (err :: error option) (c' :: client) evs.
      stateSyncNodes c' = xs \<and> length (peers evs) = length (payloads evs)
      \<and> peers evs = map sel [0..<length (peers evs)]
      \<and> nodeIdx c' = (if peers evs = [] then i0 else (i0 + length (peers evs)) mod length xs))"
  from nodes have xs: "xs \<noteq> []" by (simp add: xs_def)
  have step: "J a' e' c1 (evs @ new)"
    if J: "J a e c0 evs"
      and once: "attempt_once Int63 parseFn request b d a c0 ((w @ [EvEncode request]) @ evs)
           = (s, c1, (w @ [EvEncode request]) @ evs @ new)"
    for a a' e e' c0 c1 evs new s b
  proof -
    from attempt_once_effect [OF once]
    consider (panic) "c1 = c0" "new = []"
      | (sent) "payloads new = [b]"
          "peers new = (if stateSyncNodes c0 = [] then []
                 else [stateSyncNodes c0 ! ((nodeIdx c0 + 1) mod length (stateSyncNodes c0))])"
          "c1 = (if stateSyncNodes c0 = [] then c0
                 else c0\<lparr>nodeIdx := (nodeIdx c0 + 1) mod length (stateSyncNodes c0)\<rparr>)"
      by auto
    then show ?thesis
    proof cases
      case panic
      from J show ?thesis unfolding J_def panic append_Nil2 .
    next
      case sent
      from J have c0: "stateSyncNodes c0 = xs"
        and len: "length (peers evs) = length (payloads evs)"
        and ps: "peers evs = map sel [0..<length (peers evs)]"
        and idx: "nodeIdx c0 = (if peers evs = [] then i0 else (i0 + length (peers evs)) mod length xs)"
        unfolding J_def by blast+
      define m where "m = length (peers evs)"
      have next_idx: "Suc (nodeIdx c0) mod length xs = Suc (i0 + m) mod length xs"
        using idx by (auto simp: m_def mod_Suc_eq)
      from sent c0 xs have new: "peers new = [sel m]" and c1: "stateSyncNodes c1 = xs"
        and idx1: "nodeIdx c1 = (i0 + 1 + m) mod length xs"
        by (simp_all add: sel_def next_idx)
      have "peers (evs @ new) = map sel [0..<m] @ [sel m]"
        using ps new by (simp add: m_def)
      also have "\<dots> = map sel [0..<Suc m]" by simp
      finally have "peers (evs @ new) = map sel [0..<length (peers (evs @ new))]"
        by (simp add: new m_def)
      moreover have "length (peers (evs @ new)) = length (payloads (evs @ new))"
        using len new sent(1) by simp
      moreover have "nodeIdx c1 = (if peers (evs @ new) = [] then i0
          else (i0 + length (peers (evs @ new))) mod length xs)"
        using idx1 new by (simp add: m_def)
      ultimately show ?thesis using c1 unfolding J_def by blast
    qed
  qed
  have run: "\<exists>r c' evs. get Int63 c w request attempts d parseFn
        = (r, c', w @ EvEncode request # evs) \<and> J 0 None c' evs"
  proof (cases "RequestToBytes (codec c) request")
    case (Inl err)
    then have "get Int63 c w request attempts d parseFn = (Err err, c, w @ EvEncode request # [])"
      by (simp add: get_def)
    moreover have "J 0 None c []" by (simp add: J_def xs_def i0_def)
    ultimately show ?thesis by blast
  next
    case (Inr b)
    show ?thesis
    proof (rule get_events_rule [where J = J and Q = "\<lambda>r c' evs. J 0 None c' evs", OF Inr])
      show "J 0 None c []" by (simp add: J_def xs_def i0_def)
    next
      fix attempt err c0 evs err' c1 new
      assume "J attempt err c0 evs"
        and "attempt_once Int63 parseFn request b d attempt c0 ((w @ [EvEncode request]) @ evs)
           = (Retry err', c1, (w @ [EvEncode request]) @ evs @ new)"
      then show "J (attempt + 1) (Some err') c1 (evs @ new)" by (rule step)
    next
      fix attempt err c0 evs r c1 new
      assume "J attempt err c0 evs"
        and "attempt_once Int63 parseFn request b d attempt c0 ((w @ [EvEncode request]) @ evs)
           = (Stop r, c1, (w @ [EvEncode request]) @ evs @ new)"
      then show "J 0 None c1 (evs @ new)" by (rule step)
    next
      fix attempt err c0 evs
      assume "J attempt err c0 evs"
      then show "J 0 None c0 evs" unfolding J_def .
    qed
  qed
  then obtain r c' evs
    where get: "get Int63 c w request attempts d parseFn = (r, c', w @ EvEncode request # evs)"
      and J: "J 0 None c' evs"
    by blast
  have window: "mset (take (length xs) (drop j (peers evs))) = mset xs
      \<and> (distinct xs \<longrightarrow> distinct (take (length xs) (drop j (peers evs))))"
    if "j + length xs \<le> length (peers evs)" for j
  proof -
    from J have "peers evs = map sel [0..<length (peers evs)]" unfolding J_def by blast
    then have "take (length xs) (drop j (peers evs)) = map sel [j..<j + length xs]"
      using window_of_map_upt [OF that, of sel] by simp
    also have "\<dots> = rotate (i0 + 1 + j) xs"
      unfolding sel_def by (rule rotation_window [OF xs])
    finally have "take (length xs) (drop j (peers evs)) = rotate (i0 + 1 + j) xs" .
    then show ?thesis by (simp only: mset_rotate_eq distinct_rotate simp_thms)
  qed
  from get J window show ?thesis
    unfolding J_def sel_def xs_def i0_def by blast
qed

theorem get_round_robin_witness:
  "stateSyncNodes (failing_client 3 1000 [11, 12, 13]) \<noteq> []
   \<and> get (\<lambda>w. 5) (failing_client 3 1000 [11, 12, 13]) [] code_request 3 1000
       (parseCode (failing_client 3 1000 [11, 12, 13]) sum_hash
          :: Request \<Rightarrow> bytes \<Rightarrow> unit parsed result)
     = (Err (errExceededRetryLimit 3 (Some (External ''timeout''))),
        (failing_client 3 1000 [11, 12, 13])\<lparr>nodeIdx := 0\<rparr>,
        [EvEncode code_request,
         EvRequest 12 [7], EvLogRequestFailed 12 0 (External ''timeout''),
         EvSleep 5, EvRequest 13 [7], EvLogRequestFailed 13 1 (External ''timeout''),
         EvSleep 5, EvRequest 11 [7], EvLogRequestFailed 11 2 (External ''timeout'')])"
  using get_round_robin [of "failing_client 3 1000 [11, 12, 13]" "\<lambda>w. 5" "[]" code_request 3 1000
      "parseCode (failing_client 3 1000 [11, 12, 13]) sum_hash
         :: Request \<Rightarrow> bytes \<Rightarrow> unit parsed result"]
  by (simp add: run_defs)

subsection \<open>Encoding\<close>

text \<open>
  C9. \<open>get\<close> encodes the request once, before anything else. When encoding fails the
  call returns that error at once: the trace holds the encoding and nothing more (no
  sleep, no send, no log) and the client, with its cursor, is unchanged. When encoding
  succeeds, nothing is encoded again and every send of the call carries the bytes the
  encoding returned.
\<close>

theorem get_encodes_once:
  "(RequestToBytes (codec c) request = Inl err
      \<longrightarrow> get Int63 c w request attempts d parseFn = (Err err, c, w @ [EvEncode request]))
   \<and> (RequestToBytes (codec c) request = Inr b
      \<longrightarrow> (\<exists>r c' evs. get Int63 c w request attempts d parseFn = (r, c', w @ EvEncode request # evs)
            \<and> encodes evs = []
            \<and> payloads evs = replicate (length (payloads evs)) b))"
proof (intro conjI impI)
  assume "RequestToBytes (codec c) request = Inl err"
  then show "get Int63 c w request attempts d parseFn = (Err err, c, w @ [EvEncode request])"
    by (simp add: get_def)
next
  assume enc: "RequestToBytes (codec c) request = Inr b"
  define J where "J = (\<lambda>(attempt :: 8 word) (err :: error option) (c :: client) evs.
      encodes evs = [] \<and> (\<forall>p \<in> set (payloads evs). p = b))"
  have step: "J a' e' c1 (evs @ new)"
    if "J a e c0 evs"
      and "attempt_once Int63 parseFn request b d a c0 ((w @ [EvEncode request]) @ evs)
           = (s, c1, (w @ [EvEncode request]) @ evs @ new)"
    for a a' e e' c0 c1 evs new s
    using that(1) attempt_once_effect [OF that(2)]
    by (auto simp: J_def)
  have "\<exists>r c' evs. get Int63 c w request attempts d parseFn = (r, c', w @ EvEncode request # evs)
            \<and> J 0 None c' evs"
  proof (rule get_events_rule [where J = J, OF enc])
    show "J 0 None c []" by (simp add: J_def)
  next
    fix attempt err c0 evs err' c1 new
    assume "J attempt err c0 evs"
      and "attempt_once Int63 parseFn request b d attempt c0 ((w @ [EvEncode request]) @ evs)
           = (Retry err', c1, (w @ [EvEncode request]) @ evs @ new)"
    then show "J (attempt + 1) (Some err') c1 (evs @ new)" by (rule step)
  next
    fix attempt err c0 evs r c1 new
    assume "J attempt err c0 evs"
      and "attempt_once Int63 parseFn request b d attempt c0 ((w @ [EvEncode request]) @ evs)
           = (Stop r, c1, (w @ [EvEncode request]) @ evs @ new)"
    then show "J 0 None c1 (evs @ new)" by (rule step)
  next
    fix attempt err c0 evs
    assume "J attempt err c0 evs"
    then show "J 0 None c0 evs" by (simp add: J_def)
  qed
  then obtain r c' evs
    where "get Int63 c w request attempts d parseFn = (r, c', w @ EvEncode request # evs)"
      and "encodes evs = []" and "\<forall>p \<in> set (payloads evs). p = b"
    unfolding J_def by blast
  moreover from this(3) have "payloads evs = replicate (length (payloads evs)) b"
    by (simp add: replicate_length_same)
  ultimately show "\<exists>r c' evs. get Int63 c w request attempts d parseFn
              = (r, c', w @ EvEncode request # evs)
            \<and> encodes evs = [] \<and> payloads evs = replicate (length (payloads evs)) b"
    by blast
qed

theorem get_encodes_once_witness:
  "get (\<lambda>w. 7) (NewClient failing_net 2 1000 broken_codec [11]) [] code_request 2 1000
       (parseCode (NewClient failing_net 2 1000 broken_codec [11]) sum_hash
          :: Request \<Rightarrow> bytes \<Rightarrow> unit parsed result)
     = (Err (External ''marshal''), NewClient failing_net 2 1000 broken_codec [11],
        [EvEncode code_request])
   \<and> get (\<lambda>w. 7) (failing_client 2 1000 []) [] code_request 2 1000
       (parseCode (failing_client 2 1000 []) sum_hash :: Request \<Rightarrow> bytes \<Rightarrow> unit parsed result)
     = (Err (errExceededRetryLimit 2 (Some (External ''timeout''))), failing_client 2 1000 [],
        [EvEncode code_request,
         EvRequestAny StateSyncVersion [7], EvLogRequestFailed 0 0 (External ''timeout''),
         EvSleep 7,
         EvRequestAny StateSyncVersion [7], EvLogRequestFailed 0 1 (External ''timeout'')])"
  using get_encodes_once [of "NewClient failing_net 2 1000 broken_codec [11]" code_request
      "External ''marshal''" "\<lambda>w. 7" "[]" 2 1000
      "parseCode (NewClient failing_net 2 1000 broken_codec [11]) sum_hash
         :: Request \<Rightarrow> bytes \<Rightarrow> unit parsed result" "[7]"]
    get_encodes_once [of "failing_client 2 1000 []" code_request
      "External ''marshal''" "\<lambda>w. 7" "[]" 2 1000
      "parseCode (failing_client 2 1000 []) sum_hash :: Request \<Rightarrow> bytes \<Rightarrow> unit parsed result"
      "[7]"]
  by (simp add: run_defs broken_codec_def)

subsection \<open>Backoff\<close>

text \<open>
  C10. The code breaks the claim when the retry delay is 0: the delay computation of
  line 280 is \<^verbatim>\<open>rand.Int63n(0)\<close>, which panics before the second attempt, so it is not
  defined for every configured delay.
\<close>

theorem backoff_panics_on_zero_delay:
  "get (\<lambda>w. 42) (failing_client 3 0 [11, 12]) [] code_request 3 0
       (parseCode (failing_client 3 0 [11, 12]) sum_hash
          :: Request \<Rightarrow> bytes \<Rightarrow> unit parsed result)
     = (Panic ''invalid argument to Int63n'', (failing_client 3 0 [11, 12])\<lparr>nodeIdx := 1\<rparr>,
        [EvEncode code_request, EvRequest 12 [7],
         EvLogRequestFailed 12 0 (External ''timeout'')])"
  by (simp add: run_defs)

text \<open>
  With a retry delay greater than 0 the code does what the claim says, as far as it can
  be said without probabilities: \<open>get\<close> does not sleep before its first send, sleeps
  exactly once before every later send, each time for the value \<^verbatim>\<open>rand.Int63n\<close> returns
  for the delay at that point of the run, which is at least 0 and less than the delay,
  and the delay computation does not fail: \<open>get\<close> panics only when the validator does.
\<close>

lemma get_backoff_pattern:
  assumes delay: "0 < sint d"
  shows "\<exists>r c' evs. get Int63 c w request attempts d parseFn = (r, c', w @ EvEncode request # evs)
           \<and> backoff_pattern (sint d) (timeline evs)
           \<and> (\<forall>p. r = Panic p \<longrightarrow> (\<exists>response. parseFn request response = Panic p))"
proof (cases "RequestToBytes (codec c) request")
  case (Inl err)
  then have "get Int63 c w request attempts d parseFn = (Err err, c, w @ EvEncode request # [])"
    by (simp add: get_def)
  then show ?thesis by fastforce
next
  case (Inr b)
  define J where "J = (\<lambda>(attempt :: 8 word) (err :: error option) (c' :: client) evs.
      if attempt = 0 then timeline evs = []
      else timeline evs \<noteq> [] \<and> backoff_pattern (sint d) (timeline evs))"
  define Q where "Q = (\<lambda>r (c' :: client) evs. backoff_pattern (sint d) (timeline evs)
      \<and> (\<forall>p. r = Panic p \<longrightarrow> (\<exists>response. parseFn request response = r)))"
  have grow: "timeline (evs @ new) \<noteq> [] \<and> backoff_pattern (sint d) (timeline (evs @ new))"
    if J: "J attempt err c0 evs"
      and new: "timeline new = (if 0 < attempt then [Some (Int63 w0 mod sint d), None] else [None])"
    for attempt err c0 evs new w0
  proof (cases "attempt = 0")
    case True
    with J new show ?thesis by (simp add: J_def)
  next
    case False
    then have "0 < attempt" by (simp add: word_greater_zero_iff)
    moreover from delay have "0 \<le> Int63 w0 mod sint d" "Int63 w0 mod sint d < sint d"
      by simp_all
    ultimately show ?thesis
      using J new False by (simp add: J_def backoff_pattern_snoc)
  qed
  have "\<exists>r c' evs. get Int63 c w request attempts d parseFn = (r, c', w @ EvEncode request # evs)
           \<and> Q r c' evs"
  proof (rule get_events_rule [where J = J and Q = Q, OF Inr])
    show "J 0 None c []" by (simp add: J_def)
  next
    fix attempt err c0 evs err' c1 new
    assume J: "J attempt err c0 evs" and less: "attempt < attempts"
      and once: "attempt_once Int63 parseFn request b d attempt c0 ((w @ [EvEncode request]) @ evs)
           = (Retry err', c1, (w @ [EvEncode request]) @ evs @ new)"
    from attempt_once_effect [OF once]
    have "timeline new = (if 0 < attempt
        then [Some (Int63 ((w @ [EvEncode request]) @ evs) mod sint d), None] else [None])"
      by auto
    from grow [OF J this] word8_inc(3) [OF less]
    show "J (attempt + 1) (Some err') c1 (evs @ new)"
      by (simp add: J_def)
  next
    fix attempt err c0 evs r c1 new
    assume J: "J attempt err c0 evs" and less: "attempt < attempts"
      and once: "attempt_once Int63 parseFn request b d attempt c0 ((w @ [EvEncode request]) @ evs)
           = (Stop r, c1, (w @ [EvEncode request]) @ evs @ new)"
    from attempt_once_effect [OF once] delay
    have "timeline new = (if 0 < attempt
        then [Some (Int63 ((w @ [EvEncode request]) @ evs) mod sint d), None] else [None])"
      and "\<exists>response. parseFn request response = r"
      by auto
    with grow [OF J this(1)] show "Q r c1 (evs @ new)"
      by (auto simp: Q_def)
  next
    fix attempt err c0 evs
    assume "J attempt err c0 evs"
    then show "Q (Err (errExceededRetryLimit attempts err)) c0 evs"
      by (cases "attempt = 0") (simp_all add: J_def Q_def)
  qed
  then show ?thesis unfolding Q_def by blast
qed

lemma get_backoff_delay:
  assumes delay: "0 < sint d"
  shows "\<exists>r c' evs. get Int63 c w request attempts d parseFn = (r, c', w @ EvEncode request # evs)
           \<and> backoff_pattern (sint d) (timeline evs)
           \<and> sleeps_drawn Int63 (sint d) (w @ [EvEncode request]) evs
           \<and> (\<forall>p. r = Panic p \<longrightarrow> (\<exists>response. parseFn request response = Panic p))"
proof -
  from get_backoff_pattern [OF delay, of Int63 c w request attempts parseFn]
  obtain r c' evs
    where run: "get Int63 c w request attempts d parseFn = (r, c', w @ EvEncode request # evs)"
      and pat: "backoff_pattern (sint d) (timeline evs)"
      and pan: "\<forall>p. r = Panic p \<longrightarrow> (\<exists>response. parseFn request response = Panic p)"
    by blast
  have "sleeps_drawn Int63 (sint d) (w @ [EvEncode request]) evs"
  proof (cases "RequestToBytes (codec c) request")
    case (Inl err)
    with run show ?thesis by (simp add: get_def)
  next
    case (Inr b)
    from get_sleeps_drawn [OF Inr, of Int63 w attempts d parseFn] run show ?thesis
      by auto
  qed
  with run pat pan show ?thesis by blast
qed

lemma get_backoff_delay_example:
  "get (\<lambda>w. 2999) (failing_client 3 1000 []) [] code_request 3 1000
       (parseCode (failing_client 3 1000 []) sum_hash :: Request \<Rightarrow> bytes \<Rightarrow> unit parsed result)
     = (Err (errExceededRetryLimit 3 (Some (External ''timeout''))), failing_client 3 1000 [],
        [EvEncode code_request,
         EvRequestAny StateSyncVersion [7], EvLogRequestFailed 0 0 (External ''timeout''),
         EvSleep 999,
         EvRequestAny StateSyncVersion [7], EvLogRequestFailed 0 1 (External ''timeout''),
         EvSleep 999,
         EvRequestAny StateSyncVersion [7], EvLogRequestFailed 0 2 (External ''timeout'')])"
  using get_backoff_delay [where d = 1000 and ?Int63.0 = "\<lambda>w. 2999"
      and c = "failing_client 3 1000 []" and w = "[]" and request = code_request and attempts = 3
      and parseFn = "parseCode (failing_client 3 1000 []) sum_hash
         :: Request \<Rightarrow> bytes \<Rightarrow> unit parsed result"]
  by (simp add: run_defs)

subsection \<open>Code\<close>








end
